theory Spec2Isabelle
  imports Main "HOL-Library.AList"
begin

section \<open>Parameter trees\<close>

text \<open>
  The checkpoint adapter of \<^verbatim>\<open>src/libml/utils_vit.py\<close> works on nested Python
  dictionaries whose leaves are arrays. A Python \<^verbatim>\<open>dict\<close> keeps insertion order and has
  unique keys, so it is embedded as an association list: \<^verbatim>\<open>d[k] = v\<close> is
  \<^const>\<open>AList.update\<close> (an existing key keeps its position, a new key goes to the end),
  \<^verbatim>\<open>d[k]\<close> and \<^verbatim>\<open>k in d\<close> are \<^const>\<open>map_of\<close>, \<^verbatim>\<open>d.pop(k)\<close> is
  \<^const>\<open>AList.delete\<close>. A value stored in a tree is a leaf or again a dictionary;
  \<^verbatim>\<open>isinstance(v, collections.Mapping)\<close> is the test for the constructor \<open>Dict\<close>.
\<close>

datatype 'a ptree = Leaf 'a | Dict "(string \<times> 'a ptree) list"

text \<open>\<^verbatim>\<open>dict(items)\<close>: a later pair overwrites the value of an earlier one with the same key.\<close>

definition dict_of :: "(string \<times> 'v) list \<Rightarrow> (string \<times> 'v) list" where
  "dict_of items = fold (\<lambda>(k, v) d. AList.update k v d) items []"

text \<open>
  Python's \<^verbatim>\<open>==\<close> on dictionaries ignores the insertion order: two dictionaries are equal
  when they have the same number of keys and every key of the first is a key of the second
  with an equal value.
\<close>

fun tree_eq :: "'a ptree \<Rightarrow> 'a ptree \<Rightarrow> bool" where
  "tree_eq (Leaf a) (Leaf b) = (a = b)"
| "tree_eq (Dict xs) (Dict ys) =
     (length xs = length ys \<and>
      list_all (\<lambda>(k, v). case map_of ys k of None \<Rightarrow> False | Some w \<Rightarrow> tree_eq v w) xs)"
| "tree_eq _ _ = False"

text \<open>The invariant of a parameter tree: the keys of every dictionary in it are unique.\<close>

fun wf_tree :: "'a ptree \<Rightarrow> bool" where
  "wf_tree (Leaf a) = True"
| "wf_tree (Dict d) = (distinct (map fst d) \<and> list_all (\<lambda>(k, v). wf_tree v) d)"


section \<open>Flattening\<close>

text \<open>
  \<^verbatim>\<open>_flatten_dict(d, parent_key='', sep='/')\<close>. The list \<open>items\<close> is built child by child;
  a string is true when it is not empty, a dictionary is true when it is not empty.
\<close>

fun flatten_dict :: "(string \<times> 'a ptree) list \<Rightarrow> string \<Rightarrow> (string \<times> 'a ptree) list" where
  "flatten_dict d parent_key =
     dict_of (concat (map (\<lambda>(k, v).
         (let path = (if parent_key \<noteq> [] then parent_key @ ''/'' @ k else k) in
          case v of Dict d' \<Rightarrow> flatten_dict d' path | Leaf a \<Rightarrow> [(path, v)])) d)
       @ (if parent_key \<noteq> [] \<and> d = [] then [(parent_key, Dict [])] else []))"

declare flatten_dict.simps [simp del]


section \<open>Recovering a tree from flat names\<close>

text \<open>\<^verbatim>\<open>k.split('/', 1)\<close> for a key that contains the separator.\<close>

definition split1 :: "string \<Rightarrow> string \<times> string" where
  "split1 k = (takeWhile (\<lambda>c. c \<noteq> CHR ''/'') k, tl (dropWhile (\<lambda>c. c \<noteq> CHR ''/'') k))"

text \<open>\<^verbatim>\<open>sub_trees[k].append(x)\<close> on a \<^verbatim>\<open>defaultdict(list)\<close>: a new key starts with the empty list.\<close>

definition append_sub :: "string \<Rightarrow> 'b \<Rightarrow> (string \<times> 'b list) list \<Rightarrow> (string \<times> 'b list) list" where
  "append_sub k x sub_trees =
     AList.update k ((case map_of sub_trees k of None \<Rightarrow> [] | Some l \<Rightarrow> l) @ [x]) sub_trees"

text \<open>The body of the first loop of \<^verbatim>\<open>recover_tree\<close>; the state is \<open>(tree, sub_trees)\<close>.\<close>

definition scan_entry ::
  "string \<times> 'v \<Rightarrow> (string \<times> 'v) list \<times> (string \<times> (string \<times> 'v) list) list \<Rightarrow>
   (string \<times> 'v) list \<times> (string \<times> (string \<times> 'v) list) list" where
  "scan_entry kv st =
     (let k = fst kv; v = snd kv in
      if CHR ''/'' \<notin> set k then (AList.update k v (fst st), snd st)
      else let (k_left, k_right) = split1 k
           in (fst st, append_sub k_left (k_right, v) (snd st)))"

text \<open>
  The recursion of \<^verbatim>\<open>recover_tree\<close> ends because the keys passed down are shorter: the
  total length of the keys, plus their number, decreases.
\<close>

definition key_weight :: "(string \<times> 'v) list \<Rightarrow> nat" where
  "key_weight es = sum_list (map (\<lambda>kv. length (fst kv)) es)"


definition group_weight :: "(string \<times> (string \<times> 'v) list) list \<Rightarrow> nat" where
  "group_weight st = sum_list (map (\<lambda>g. key_weight (snd g) + length (snd g)) st)"

lemma append_sub_Nil: "append_sub k x [] = [(k, [x])]"
  by (simp add: append_sub_def)

lemma append_sub_Cons:
  "append_sub k x ((a, b) # st) =
     (if a = k then (k, b @ [x]) # st else (a, b) # append_sub k x st)"
  by (simp add: append_sub_def)

lemma group_weight_append_sub:
  "group_weight (append_sub k x st) = group_weight st + length (fst x) + 1"
proof (induction st)
  case Nil
  then show ?case by (simp add: append_sub_Nil group_weight_def key_weight_def)
next
  case (Cons g st)
  obtain a b where g: "g = (a, b)" by (cases g)
  show ?case
  proof (cases "a = k")
    case True
    then show ?thesis
      by (simp add: g append_sub_Cons group_weight_def key_weight_def)
  next
    case False
    then show ?thesis
      using Cons.IH by (simp add: g append_sub_Cons group_weight_def)
  qed
qed

lemma split1_shorter:
  assumes "CHR ''/'' \<in> set k"
  shows "length (snd (split1 k)) < length k"
proof -
  have "dropWhile (\<lambda>c. c \<noteq> CHR ''/'') k \<noteq> []"
    using assms by (simp add: dropWhile_eq_Nil_conv)
  then have "length (tl (dropWhile (\<lambda>c. c \<noteq> CHR ''/'') k)) <
      length (dropWhile (\<lambda>c. c \<noteq> CHR ''/'') k)"
    by (cases "dropWhile (\<lambda>c. c \<noteq> CHR ''/'') k") simp_all
  also have "\<dots> \<le> length k" by (rule length_dropWhile_le)
  finally show ?thesis by (simp add: split1_def)
qed

lemma group_weight_scan_entry:
  "group_weight (snd (scan_entry kv st)) \<le> group_weight (snd st) + length (fst kv)"
  using split1_shorter [of "fst kv"]
  by (auto simp: scan_entry_def Let_def group_weight_append_sub case_prod_unfold)

lemma group_weight_fold_scan:
  "group_weight (snd (fold scan_entry es st)) \<le> group_weight (snd st) + key_weight es"
proof (induction es arbitrary: st)
  case Nil
  then show ?case by (simp add: key_weight_def)
next
  case (Cons e es)
  have "group_weight (snd (fold scan_entry es (scan_entry e st)))
      \<le> group_weight (snd (scan_entry e st)) + key_weight es"
    by (rule Cons.IH)
  also have "\<dots> \<le> group_weight (snd st) + length (fst e) + key_weight es"
    using group_weight_scan_entry [of e st] by simp
  finally show ?case by (simp add: key_weight_def)
qed

lemma group_member_weight:
  "(k, kvs) \<in> set st \<Longrightarrow> key_weight kvs + length kvs \<le> group_weight st"
  unfolding group_weight_def
  by (induction st) auto

lemma key_weight_zip_fst_snd: "key_weight (zip (map fst kvs) (map snd kvs)) = key_weight kvs"
  by (simp add: zip_map_fst_snd)

lemma sub_tree_smaller:
  assumes "(k, kvs) \<in> set (snd (fold scan_entry es ([], [])))"
  shows "key_weight (zip (map fst kvs) (map snd kvs)) + length kvs
           < key_weight es + length es"
proof -
  have "es \<noteq> []" using assms by auto
  have "key_weight kvs + length kvs \<le> group_weight (snd (fold scan_entry es ([], [])))"
    using assms by (rule group_member_weight)
  also have "\<dots> \<le> key_weight es"
    using group_weight_fold_scan [of es "([], [])"] by (simp add: group_weight_def)
  also have "\<dots> < key_weight es + length es"
    using \<open>es \<noteq> []\<close> by simp
  finally show ?thesis by (simp add: key_weight_zip_fst_snd)
qed

text \<open>
  \<^verbatim>\<open>recover_tree(keys, values)\<close>. The second loop stores the recovered sub-trees, in the
  order in which their first segments were met.
\<close>

function recover_tree :: "string list \<Rightarrow> 'a ptree list \<Rightarrow> (string \<times> 'a ptree) list" where
  "recover_tree keys values =
     (let st = fold scan_entry (zip keys values) ([], [])
      in fold (\<lambda>(k, kv_pairs) tree.
                 AList.update k (Dict (recover_tree (map fst kv_pairs) (map snd kv_pairs))) tree)
           (snd st) (fst st))"
  by pat_completeness auto
termination
proof (relation "measure (\<lambda>(keys, values). key_weight (zip keys values) + length (zip keys values))")
  show "wf (measure (\<lambda>(keys, values). key_weight (zip keys values) + length (zip keys values)))"
    by simp
next
  fix keys :: "string list" and "values" :: "'a ptree list" and st x tree a b
  assume "st = fold scan_entry (zip keys values) ([], [])" and "x \<in> set (snd st)" and "(a, b) = x"
  then have "(a, b) \<in> set (snd (fold scan_entry (zip keys values) ([], [])))" by simp
  then have "key_weight (zip (map fst b) (map snd b)) + length b
      < key_weight (zip keys values) + length (zip keys values)"
    by (rule sub_tree_smaller)
  then show "((map fst b, map snd b), (keys, values))
      \<in> measure (\<lambda>(keys, values). key_weight (zip keys values) + length (zip keys values))"
    by simp
qed

declare recover_tree.simps [simp del]




section \<open>Inspecting restored parameters\<close>

text \<open>
  The exceptions the adapter can end with. \<open>SchemaMismatchError\<close> is the \<^verbatim>\<open>ValueError\<close>
  raised by \<^verbatim>\<open>inspect_params\<close>; its message prints the missing, the extra, the restored
  and the expected keys, in this order.
\<close>

datatype error =
    SchemaMismatchError "string set" "string set" "string set" "string set"
  | KeyError string
  | IndexError
  | TypeError
  | AttributeError
  | ValueError
  | ZeroDivisionError

text \<open>
  \<^verbatim>\<open>isinstance(expected_flat[k], dict) and not expected_flat[k]\<close>
\<close>

definition is_empty_dict :: "'a ptree option \<Rightarrow> bool" where
  "is_empty_dict v = (case v of Some (Dict d) \<Rightarrow> d = [] | _ \<Rightarrow> False)"

text \<open>
  The loop of \<^verbatim>\<open>inspect_params\<close> over the missing keys; its state is the pair of
  \<open>params\<close> and \<open>empty_keys\<close>. The key \<open>k\<close> is a key of the flat dictionary and is written
  into \<open>params\<close> as it is.
\<close>

definition add_back_empty ::
  "(string \<times> 'a ptree) list \<Rightarrow> string \<Rightarrow>
   (string \<times> 'a ptree) list \<times> string list \<Rightarrow> (string \<times> 'a ptree) list \<times> string list" where
  "add_back_empty expected_flat k st =
     (if is_empty_dict (map_of expected_flat k)
      then (AList.update k (Dict []) (fst st), snd st @ [k])
      else st)"

text \<open>
  \<^verbatim>\<open>inspect_params(*, params, expected, fail_if_extra=True, fail_if_missing=True)\<close>.
  The two differences of key views are Python sets; they are listed here in the order of
  the dictionary they are taken from.
\<close>

definition inspect_params ::
  "(string \<times> 'a ptree) list \<Rightarrow> (string \<times> 'a ptree) list \<Rightarrow> bool \<Rightarrow> bool \<Rightarrow>
   error + (string \<times> 'a ptree) list" where
  "inspect_params params expected fail_if_extra fail_if_missing =
     (let params_flat = flatten_dict params [];
          expected_flat = flatten_dict expected [];
          missing_keys = filter (\<lambda>k. k \<notin> set (map fst params_flat)) (map fst expected_flat);
          extra_keys = filter (\<lambda>k. k \<notin> set (map fst expected_flat)) (map fst params_flat);
          (params', empty_keys) = fold (add_back_empty expected_flat) missing_keys (params, []);
          missing_keys' = filter (\<lambda>k. k \<notin> set empty_keys) missing_keys
      in if (missing_keys' \<noteq> [] \<and> fail_if_missing) \<or> (extra_keys \<noteq> [] \<and> fail_if_extra)
         then Inl (SchemaMismatchError (set missing_keys') (set extra_keys)
                     (set (map fst params_flat)) (set (map fst expected_flat)))
         else Inr params')"


section \<open>Arrays\<close>

text \<open>
  A leaf of a checkpoint is an n-dimensional array: its shape and its elements in row-major
  order. The element type stays a parameter: the adapter only moves elements, and the
  interpolation itself is done by \<^verbatim>\<open>scipy.ndimage.zoom\<close>, which is a parameter of the
  model.
\<close>

datatype 'a tensor = Tensor (shape: "nat list") (data: "'a list")

text \<open>The first \<open>cnt\<close> consecutive blocks of \<open>sz\<close> elements.\<close>

definition chunks :: "nat \<Rightarrow> nat \<Rightarrow> 'a list \<Rightarrow> 'a list list" where
  "chunks sz cnt xs = map (\<lambda>i. take sz (drop (i * sz) xs)) [0..<cnt]"

text \<open>\<^verbatim>\<open>posemb[:, :n]\<close>; with fewer than two axes numpy raises \<^verbatim>\<open>IndexError\<close>.\<close>

definition slice_tokens :: "nat \<Rightarrow> 'a tensor \<Rightarrow> error + 'a tensor" where
  "slice_tokens n t =
     (case shape t of
        b # m # rest \<Rightarrow>
          Inr (Tensor (b # min n m # rest)
                 (concat (map (take (min n m * prod_list rest))
                            (chunks (m * prod_list rest) b (data t)))))
      | _ \<Rightarrow> Inl IndexError)"

text \<open>\<^verbatim>\<open>posemb[0, n:]\<close>\<close>

definition tokens_from :: "nat \<Rightarrow> 'a tensor \<Rightarrow> error + 'a tensor" where
  "tokens_from n t =
     (case shape t of
        b # m # rest \<Rightarrow>
          if b = 0 then Inl IndexError
          else Inr (Tensor ((m - n) # rest)
                      (drop (n * prod_list rest) (take (m * prod_list rest) (data t))))
      | _ \<Rightarrow> Inl IndexError)"

text \<open>\<^verbatim>\<open>posemb[0]\<close>\<close>

definition first_item :: "'a tensor \<Rightarrow> error + 'a tensor" where
  "first_item t =
     (case shape t of
        b # rest \<Rightarrow>
          if b = 0 then Inl IndexError
          else Inr (Tensor rest (take (prod_list rest) (data t)))
      | [] \<Rightarrow> Inl IndexError)"

text \<open>
  \<^verbatim>\<open>jnp.tile(posemb_tok, [1, token_len, 1])\<close>: an array of fewer than three axes gets
  leading axes of length 1, one of more than three axes is repeated along its last but one
  axis as well.
\<close>

definition tile_tokens :: "nat \<Rightarrow> 'a tensor \<Rightarrow> 'a tensor" where
  "tile_tokens k t =
     (let shp = replicate (3 - length (shape t)) 1 @ shape t;
          r = length shp;
          inner = shp ! (r - 2) * shp ! (r - 1);
          outer = prod_list (take (r - 2) shp)
      in Tensor (shp[r - 2 := shp ! (r - 2) * k])
           (concat (map (\<lambda>c. concat (replicate k c)) (chunks inner outer (data t)))))"

text \<open>
  \<^verbatim>\<open>a.reshape(n1, n2, -1)\<close>: numpy refuses the unknown axis when the known ones multiply
  to zero or do not divide the number of elements.
\<close>

definition reshape3 :: "nat \<Rightarrow> nat \<Rightarrow> 'a tensor \<Rightarrow> error + 'a tensor" where
  "reshape3 n1 n2 t =
     (if n1 * n2 = 0 \<or> length (data t) mod (n1 * n2) \<noteq> 0 then Inl ValueError
      else Inr (Tensor [n1, n2, length (data t) div (n1 * n2)] (data t)))"

text \<open>
  \<^verbatim>\<open>np.concatenate([x, y], axis=1)\<close>: the two arrays must have the same number of axes
  and agree on every axis but the second.
\<close>

definition concatenate1 :: "'a tensor \<Rightarrow> 'a tensor \<Rightarrow> error + 'a tensor" where
  "concatenate1 x y =
     (case (shape x, shape y) of
        (b # n1 # r1, b' # n2 # r2) \<Rightarrow>
          if b = b' \<and> r1 = r2
          then Inr (Tensor (b # (n1 + n2) # r1)
                      (concat (map2 (@) (chunks (n1 * prod_list r1) b (data x))
                                        (chunks (n2 * prod_list r1) b (data y)))))
          else Inl ValueError
      | _ \<Rightarrow> Inl ValueError)"

text \<open>
  \<^verbatim>\<open>int(np.sqrt(n))\<close> for a count \<open>n\<close>: the square root of a float is correctly rounded
  and \<^verbatim>\<open>int\<close> truncates, which for the token counts of an embedding is the integer
  square root.
\<close>

function isqrt_from :: "nat \<Rightarrow> nat \<Rightarrow> nat" where
  "isqrt_from n m = (if (m + 1) * (m + 1) \<le> n then isqrt_from n (m + 1) else m)"
  by pat_completeness auto
termination
proof (relation "measure (\<lambda>(n, m). n - m)")
  show "wf (measure (\<lambda>(n, m). n - m))" by simp
next
  fix n m :: nat
  assume a: "(m + 1) * (m + 1) \<le> n"
  have "m + 1 \<le> (m + 1) * (m + 1)" by simp
  with a have "m < n" by linarith
  then show "((n, m + 1), (n, m)) \<in> measure (\<lambda>(n, m). n - m)" by simp
qed

declare isqrt_from.simps [simp del]

definition isqrt :: "nat \<Rightarrow> nat" where
  "isqrt n = isqrt_from n 0"


section \<open>Model configuration\<close>

text \<open>
  The options of \<open>model_config\<close> that the adapter reads. \<^verbatim>\<open>model_config.get(name)\<close> is
  \<open>None\<close> for an option that is not set.
\<close>

record prompt_config =
  prompt_length :: int
  top_k :: int
  prompt_key :: bool

record model_config =
  representation_size :: "nat option"
  use_cls_token :: "bool option"
  prompt_params :: "(string \<times> prompt_config) list option"


section \<open>Loading a pretrained checkpoint\<close>

text \<open>Sequencing of steps that may raise.\<close>

definition bind_err :: "error + 'a \<Rightarrow> ('a \<Rightarrow> error + 'b) \<Rightarrow> error + 'b" where
  "bind_err m f = (case m of Inl e \<Rightarrow> Inl e | Inr x \<Rightarrow> f x)"

text \<open>
  \<^verbatim>\<open>t[k]\<close> and \<^verbatim>\<open>t[k] = v\<close> on a value of a tree. On a dictionary a missing key raises
  \<^verbatim>\<open>KeyError\<close> when read and is created when written; an array does not take a string
  as index.
\<close>

fun getitem :: "'a ptree \<Rightarrow> string \<Rightarrow> error + 'a ptree" where
  "getitem (Dict d) k = (case map_of d k of None \<Rightarrow> Inl (KeyError k) | Some v \<Rightarrow> Inr v)"
| "getitem (Leaf a) k = Inl IndexError"

fun setitem :: "'a ptree \<Rightarrow> string \<Rightarrow> 'a ptree \<Rightarrow> error + 'a ptree" where
  "setitem (Dict d) k v = Inr (Dict (AList.update k v d))"
| "setitem (Leaf a) k v = Inl IndexError"

text \<open>\<^verbatim>\<open>t[k1][k2]...\<close>\<close>

fun getpath :: "'a ptree \<Rightarrow> string list \<Rightarrow> error + 'a ptree" where
  "getpath t [] = Inr t"
| "getpath t (k # ks) = bind_err (getitem t k) (\<lambda>t'. getpath t' ks)"

text \<open>\<^verbatim>\<open>k in t\<close>; on an array the comparison with a string finds nothing.\<close>

fun contains :: "'a ptree \<Rightarrow> string \<Rightarrow> bool" where
  "contains (Dict d) k = (map_of d k \<noteq> None)"
| "contains (Leaf a) k = False"

text \<open>\<^verbatim>\<open>v.shape\<close> is an attribute of arrays only.\<close>

fun as_tensor :: "'a ptree \<Rightarrow> error + 'a" where
  "as_tensor (Leaf a) = Inr a"
| "as_tensor (Dict d) = Inl AttributeError"

text \<open>
  Lines 146 to 149: without a \<open>representation_size\<close> the sub-tree \<open>pre_logits\<close> is dropped.
\<close>

definition drop_pre_logits ::
  "model_config \<Rightarrow> (string \<times> 'a ptree) list \<Rightarrow> (string \<times> 'a ptree) list" where
  "drop_pre_logits cfg restored_params =
     (if representation_size cfg = None
      then (if contains (Dict restored_params) ''pre_logits''
            then AList.delete ''pre_logits'' restored_params else restored_params)
      else restored_params)"

text \<open>
  \<^verbatim>\<open>restored_params['head'][name] = init_params['head'][name]\<close>: the right side is
  evaluated first, then \<^verbatim>\<open>restored_params['head']\<close>, then the value is stored.
\<close>

definition overwrite_head_leaf ::
  "string \<Rightarrow> (string \<times> 'a ptree) list \<Rightarrow> (string \<times> 'a ptree) list \<Rightarrow>
   error + (string \<times> 'a ptree) list" where
  "overwrite_head_leaf name init_params restored_params =
     bind_err (getitem (Dict init_params) ''head'') (\<lambda>init_head.
     bind_err (getitem init_head name) (\<lambda>v.
     bind_err (getitem (Dict restored_params) ''head'') (\<lambda>head.
     bind_err (setitem head name v) (\<lambda>head'.
     Inr (AList.update ''head'' head' restored_params)))))"

definition overwrite_head ::
  "(string \<times> 'a ptree) list \<Rightarrow> (string \<times> 'a ptree) list \<Rightarrow>
   error + (string \<times> 'a ptree) list" where
  "overwrite_head init_params restored_params =
     bind_err (overwrite_head_leaf ''kernel'' init_params restored_params)
       (overwrite_head_leaf ''bias'' init_params)"

text \<open>
  The body of the loop of lines 153 to 159 for one \<open>key\<close>.
  \<^verbatim>\<open>model_config['prompt_params']['prompt_pool']\<close> raises \<^verbatim>\<open>KeyError\<close> when either key
  is not there.
\<close>

definition add_prompt ::
  "(string \<times> 'a ptree) list \<Rightarrow> model_config \<Rightarrow> string \<Rightarrow> (string \<times> 'a ptree) list \<Rightarrow>
   error + (string \<times> 'a ptree) list" where
  "add_prompt init_params cfg key restored_params =
     (if contains (Dict init_params) key \<and> \<not> contains (Dict restored_params) key
      then
        let r0 = AList.update key (Dict []) restored_params in
        bind_err (getitem (Dict init_params) key) (\<lambda>init_group.
        bind_err (getitem init_group ''prompt'') (\<lambda>p.
        bind_err (getitem (Dict r0) key) (\<lambda>g.
        bind_err (setitem g ''prompt'' p) (\<lambda>g1.
        let r1 = AList.update key g1 r0 in
        if key = ''prompt_pool''
        then
          (case prompt_params cfg of
             None \<Rightarrow> Inl (KeyError ''prompt_params'')
           | Some pp \<Rightarrow>
               (case map_of pp ''prompt_pool'' of
                  None \<Rightarrow> Inl (KeyError ''prompt_pool'')
                | Some pc \<Rightarrow>
                    if prompt_key pc
                    then
                      bind_err (getitem (Dict init_params) key) (\<lambda>init_group'.
                      bind_err (getitem init_group' ''key'') (\<lambda>kv.
                      bind_err (getitem (Dict r1) key) (\<lambda>g'.
                      bind_err (setitem g' ''key'' kv) (\<lambda>g2.
                      Inr (AList.update key g2 r1)))))
                    else Inr r1))
        else Inr r1))))
      else Inr restored_params)"

text \<open>\<^verbatim>\<open>model_config['prompt_params']['prompt_pool'].prompt_key\<close> is there and true.\<close>

definition prompt_key_set :: "model_config \<Rightarrow> bool" where
  "prompt_key_set cfg =
     (case prompt_params cfg of
        None \<Rightarrow> False
      | Some pp \<Rightarrow> (case map_of pp ''prompt_pool'' of None \<Rightarrow> False | Some pc \<Rightarrow> prompt_key pc))"

fun add_prompts ::
  "(string \<times> 'a ptree) list \<Rightarrow> model_config \<Rightarrow> string list \<Rightarrow> (string \<times> 'a ptree) list \<Rightarrow>
   error + (string \<times> 'a ptree) list" where
  "add_prompts init_params cfg [] restored_params = Inr restored_params"
| "add_prompts init_params cfg (key # keys) restored_params =
     bind_err (add_prompt init_params cfg key restored_params)
       (add_prompts init_params cfg keys)"

text \<open>
  Lines 171 to 178: the number of leading token slots of the new embedding. A
  \<open>prompt_params\<close> that is not set or is empty counts as false.
\<close>

definition token_len_of :: "model_config \<Rightarrow> int" where
  "token_len_of cfg =
     (let token_len = 0;
          token_len = (if use_cls_token cfg = Some True then token_len + 1 else token_len)
      in case prompt_params cfg of
           None \<Rightarrow> token_len
         | Some pp \<Rightarrow>
             if pp = [] then token_len
             else fold (\<lambda>key tl.
                    case map_of pp key of
                      None \<Rightarrow> tl
                    | Some pc \<Rightarrow> tl + prompt_length pc * top_k pc)
                  [''prompt_pool''] token_len)"

text \<open>
  Lines 179 to 184: the token prefix and the grid of the restored embedding, and what is
  left of \<open>ntok_new\<close> for the grid.
\<close>

definition split_posemb ::
  "int \<Rightarrow> 'a tensor \<Rightarrow> int \<Rightarrow> error + ('a tensor \<times> 'a tensor \<times> int)" where
  "split_posemb token_len posemb ntok_new =
     (if token_len > 0
      then
        bind_err (slice_tokens 1 posemb) (\<lambda>posemb_tok.
        bind_err (tokens_from 1 posemb) (\<lambda>posemb_grid.
        Inr (tile_tokens (nat token_len) posemb_tok, posemb_grid, ntok_new - token_len)))
      else
        bind_err (slice_tokens 0 posemb) (\<lambda>posemb_tok.
        bind_err (first_item posemb) (\<lambda>posemb_grid.
        Inr (posemb_tok, posemb_grid, ntok_new))))"

text \<open>
  Lines 168 to 195: the resized embedding. \<open>zoom g gs_new gs_old\<close> stands for
  \<^verbatim>\<open>scipy.ndimage.zoom(g, (gs_new / gs_old, gs_new / gs_old, 1), order=1)\<close>. The square
  root of a negative number is \<open>nan\<close>, which \<^verbatim>\<open>int\<close> refuses.
\<close>

definition resample_posemb ::
  "('a tensor \<Rightarrow> nat \<Rightarrow> nat \<Rightarrow> error + 'a tensor) \<Rightarrow> model_config \<Rightarrow>
   'a tensor \<Rightarrow> 'a tensor \<Rightarrow> error + 'a tensor" where
  "resample_posemb zoom cfg posemb posemb_new =
     (case shape posemb_new of
        s0 # ntok_new # _ \<Rightarrow>
          bind_err (split_posemb (token_len_of cfg) posemb (int ntok_new))
            (\<lambda>(posemb_tok, posemb_grid, ntok_new').
               case shape posemb_grid of
                 [] \<Rightarrow> Inl TypeError
               | len # _ \<Rightarrow>
                   let gs_old = isqrt len in
                   if ntok_new' < 0 then Inl ValueError
                   else
                     let gs_new = isqrt (nat ntok_new') in
                     bind_err (reshape3 gs_old gs_old posemb_grid) (\<lambda>g1.
                     if gs_old = 0 then Inl ZeroDivisionError
                     else
                       bind_err (zoom g1 gs_new gs_old) (\<lambda>g2.
                       bind_err (reshape3 1 (gs_new * gs_new) g2) (\<lambda>g3.
                       concatenate1 posemb_tok g3))))
      | _ \<Rightarrow> Inl IndexError)"

text \<open>
  What the adapter relies on from \<^verbatim>\<open>scipy.ndimage.zoom\<close>: the output has the input's
  shape multiplied by the zoom factors and rounded, so a grid of side \<open>gs_old\<close> comes back
  with side \<open>gs_new\<close> and the same number of channels.
\<close>

definition zoom_resizes_grid :: "('a tensor \<Rightarrow> nat \<Rightarrow> nat \<Rightarrow> error + 'a tensor) \<Rightarrow> bool" where
  "zoom_resizes_grid zoom =
     (\<forall>g gs_new gs_old c.
        shape g = [gs_old, gs_old, c] \<and> length (data g) = gs_old * gs_old * c \<and>
        0 < gs_old \<and> 0 < gs_new \<longrightarrow>
        (\<exists>z. zoom g gs_new gs_old = Inr z \<and> shape z = [gs_new, gs_new, c] \<and>
             length (data z) = gs_new * gs_new * c))"

text \<open>Lines 161 to 196.\<close>

definition resize_posembed ::
  "('a tensor \<Rightarrow> nat \<Rightarrow> nat \<Rightarrow> error + 'a tensor) \<Rightarrow>
   (string \<times> 'a tensor ptree) list \<Rightarrow> model_config \<Rightarrow> (string \<times> 'a tensor ptree) list \<Rightarrow>
   error + (string \<times> 'a tensor ptree) list" where
  "resize_posembed zoom init_params cfg restored_params =
     (if contains (case map_of restored_params ''Transformer'' of None \<Rightarrow> Dict [] | Some t \<Rightarrow> t)
           ''posembed_input''
      then
        bind_err (getitem (Dict restored_params) ''Transformer'') (\<lambda>tr.
        bind_err (getitem tr ''posembed_input'') (\<lambda>pin.
        bind_err (getitem pin ''pos_embedding'') (\<lambda>pe.
        bind_err (getitem (Dict init_params) ''Transformer'') (\<lambda>itr.
        bind_err (getitem itr ''posembed_input'') (\<lambda>ipin.
        bind_err (getitem ipin ''pos_embedding'') (\<lambda>ipe.
        bind_err (as_tensor pe) (\<lambda>posemb.
        bind_err (as_tensor ipe) (\<lambda>posemb_new.
        if shape posemb \<noteq> shape posemb_new
        then
          bind_err (resample_posemb zoom cfg posemb posemb_new) (\<lambda>posemb'.
          bind_err (setitem pin ''pos_embedding'' (Leaf posemb')) (\<lambda>pin'.
          bind_err (setitem tr ''posembed_input'' pin') (\<lambda>tr'.
          Inr (AList.update ''Transformer'' tr' restored_params))))
        else Inr restored_params))))))))
      else Inr restored_params)"

text \<open>
  Lines 135 to 159: \<open>restored_params\<close> as it stands before the position embeddings are
  looked at. Reading the file is outside the model: \<open>params\<close> is the tree that
  \<^verbatim>\<open>load(pretrained_path)\<close> returns.
\<close>

definition substitute_params ::
  "(string \<times> 'a ptree) list \<Rightarrow> (string \<times> 'a ptree) list \<Rightarrow> model_config \<Rightarrow>
   error + (string \<times> 'a ptree) list" where
  "substitute_params params init_params cfg =
     bind_err (inspect_params params init_params False False) (\<lambda>restored_params.
     bind_err (overwrite_head init_params (drop_pre_logits cfg restored_params))
       (add_prompts init_params cfg [''shared_prompt'', ''task_specific_prompt'', ''prompt_pool'']))"

text \<open>
  \<^verbatim>\<open>load_pretrained(*, pretrained_path, init_params, model_config)\<close>.
  \<^verbatim>\<open>flax.core.freeze\<close> makes the result immutable and leaves its content as it is.
\<close>

definition load_pretrained ::
  "('a tensor \<Rightarrow> nat \<Rightarrow> nat \<Rightarrow> error + 'a tensor) \<Rightarrow>
   (string \<times> 'a tensor ptree) list \<Rightarrow> (string \<times> 'a tensor ptree) list \<Rightarrow> model_config \<Rightarrow>
   error + (string \<times> 'a tensor ptree) list" where
  "load_pretrained zoom params init_params cfg =
     bind_err (substitute_params params init_params cfg)
       (resize_posembed zoom init_params cfg)"


section \<open>Notions for the round trip\<close>

text \<open>No key of the tree contains the separator.\<close>

fun sep_free :: "'a ptree \<Rightarrow> bool" where
  "sep_free (Leaf a) = True"
| "sep_free (Dict d) = list_all (\<lambda>(k, v). CHR ''/'' \<notin> set k \<and> sep_free v) d"

text \<open>A sub-tree at the top of the tree does not sit under the empty key.\<close>

definition top_named :: "(string \<times> 'a ptree) list \<Rightarrow> bool" where
  "top_named d = list_all (\<lambda>(k, v). case v of Dict d' \<Rightarrow> k \<noteq> [] | Leaf a \<Rightarrow> True) d"

text \<open>
  The entries of a flattened dictionary with their paths relative to it: what
  \<^verbatim>\<open>_flatten_dict\<close> returns for it under a non-empty parent key, without that prefix.
\<close>

fun rel_items :: "(string \<times> 'a ptree) list \<Rightarrow> (string \<times> 'a ptree) list" where
  "rel_items d =
     concat (map (\<lambda>(k, v).
        case v of
          Leaf a \<Rightarrow> [(k, v)]
        | Dict d' \<Rightarrow> if d' = [] then [(k, Dict [])]
                     else map (\<lambda>(r, w). (k @ ''/'' @ r, w)) (rel_items d')) d)"

declare rel_items.simps [simp del]

text \<open>
  The children that flatten to one entry under their own key (leaves and empty
  dictionaries), and the non-empty dictionaries among the children.
\<close>

definition direct :: "(string \<times> 'a ptree) list \<Rightarrow> (string \<times> 'a ptree) list" where
  "direct d = filter (\<lambda>(k, v). case v of Leaf a \<Rightarrow> True | Dict d' \<Rightarrow> d' = []) d"

definition nested :: "(string \<times> 'a ptree) list \<Rightarrow> (string \<times> (string \<times> 'a ptree) list) list" where
  "nested d = concat (map (\<lambda>(k, v).
       case v of Leaf a \<Rightarrow> [] | Dict d' \<Rightarrow> if d' = [] then [] else [(k, d')]) d)"

text \<open>The first segment of a flat key.\<close>

definition first_seg :: "string \<Rightarrow> string" where
  "first_seg key = takeWhile (\<lambda>c. c \<noteq> CHR ''/'') key"

text \<open>The relative entries that one child contributes.\<close>

fun block :: "string \<times> 'a ptree \<Rightarrow> (string \<times> 'a ptree) list" where
  "block (k, v) =
     (case v of
        Leaf a \<Rightarrow> [(k, v)]
      | Dict d' \<Rightarrow> if d' = [] then [(k, Dict [])]
                   else map (\<lambda>(r, w). (k @ ''/'' @ r, w)) (rel_items d'))"

text \<open>An entry with its key under the parent key \<open>p\<close>.\<close>

definition pre :: "string \<Rightarrow> string \<times> 'v \<Rightarrow> string \<times> 'v" where
  "pre p rw = (p @ ''/'' @ fst rw, snd rw)"

text \<open>The \<open>sub_trees\<close> that \<^verbatim>\<open>recover_tree\<close> collects from the relative entries.\<close>

definition groups :: "(string \<times> 'a ptree) list \<Rightarrow> (string \<times> (string \<times> 'a ptree) list) list" where
  "groups d = map (\<lambda>(k, d'). (k, rel_items d')) (nested d)"


section \<open>Key sets of the inspection\<close>

text \<open>The key sets of the specification, after the recovery of empty sub-trees.\<close>

definition missing_after_recovery ::
  "(string \<times> 'a ptree) list \<Rightarrow> (string \<times> 'a ptree) list \<Rightarrow> string set" where
  "missing_after_recovery params expected =
     {k \<in> fst ` set (flatten_dict expected []).
        k \<notin> fst ` set (flatten_dict params []) \<and>
        \<not> is_empty_dict (map_of (flatten_dict expected []) k)}"

definition extra_key_set ::
  "(string \<times> 'a ptree) list \<Rightarrow> (string \<times> 'a ptree) list \<Rightarrow> string set" where
  "extra_key_set params expected =
     fst ` set (flatten_dict params []) - fst ` set (flatten_dict expected [])"


section \<open>Properties of the inspection\<close>

lemma fold_add_back_empty_snd:
  "snd (fold (add_back_empty ef) ks st) =
     snd st @ filter (\<lambda>k. is_empty_dict (map_of ef k)) ks"
  by (induction ks arbitrary: st) (simp_all add: add_back_empty_def)

lemma fold_add_back_empty_fst:
  "fst (fold (add_back_empty ef) ks st) =
     fold (\<lambda>k p. AList.update k (Dict []) p) (filter (\<lambda>k. is_empty_dict (map_of ef k)) ks) (fst st)"
  by (induction ks arbitrary: st) (simp_all add: add_back_empty_def)

lemma remaining_missing_set:
  "set (filter (\<lambda>k. k \<notin> set (snd (fold (add_back_empty (flatten_dict expected []))
           (filter (\<lambda>k. k \<notin> set (map fst (flatten_dict params [])))
              (map fst (flatten_dict expected []))) (p, []))))
        (filter (\<lambda>k. k \<notin> set (map fst (flatten_dict params [])))
              (map fst (flatten_dict expected []))))
   = missing_after_recovery params expected"
  by (auto simp: fold_add_back_empty_snd missing_after_recovery_def)

lemma extra_set:
  "set (filter (\<lambda>k. k \<notin> set (map fst (flatten_dict expected [])))
          (map fst (flatten_dict params [])))
   = extra_key_set params expected"
  by (auto simp: extra_key_set_def)

text \<open>
  C4: \<^verbatim>\<open>inspect_params\<close> raises exactly when \<open>fail_if_missing\<close> is set and keys are still
  missing after the recovery of empty sub-trees, or \<open>fail_if_extra\<close> is set and there are
  extra keys; the error then carries the missing, extra, restored and expected key sets;
  with both flags off it returns for every pair of trees.
\<close>

theorem inspect_params_raises_iff:
  "(\<forall>e. (inspect_params params expected fail_if_extra fail_if_missing = Inl e) =
     (((fail_if_missing \<and> missing_after_recovery params expected \<noteq> {}) \<or>
       (fail_if_extra \<and> extra_key_set params expected \<noteq> {})) \<and>
      e = SchemaMismatchError (missing_after_recovery params expected)
            (extra_key_set params expected)
            (fst ` set (flatten_dict params [])) (fst ` set (flatten_dict expected [])))) \<and>
   (\<exists>r. inspect_params params expected False False = Inr r)"
proof -
  let ?pf = "flatten_dict params []"
  let ?ef = "flatten_dict expected []"
  let ?mk = "filter (\<lambda>k. k \<notin> set (map fst ?pf)) (map fst ?ef)"
  let ?st = "fold (add_back_empty ?ef) ?mk (params, [])"
  let ?mk' = "filter (\<lambda>k. k \<notin> set (snd ?st)) ?mk"
  let ?ek = "filter (\<lambda>k. k \<notin> set (map fst ?ef)) (map fst ?pf)"
  have unfold: "inspect_params params expected fx fm =
      (if (?mk' \<noteq> [] \<and> fm) \<or> (?ek \<noteq> [] \<and> fx)
       then Inl (SchemaMismatchError (set ?mk') (set ?ek) (set (map fst ?pf)) (set (map fst ?ef)))
       else Inr (fst ?st))" for fx fm
    by (simp add: inspect_params_def Let_def case_prod_unfold)
  have m: "set ?mk' = missing_after_recovery params expected"
    by (rule remaining_missing_set)
  have x: "set ?ek = extra_key_set params expected"
    by (rule extra_set)
  have m0: "(?mk' \<noteq> []) = (missing_after_recovery params expected \<noteq> {})"
    using m by (metis set_empty)
  have x0: "(?ek \<noteq> []) = (extra_key_set params expected \<noteq> {})"
    using x by (metis set_empty)
  show ?thesis
    unfolding unfold m0 x0 m x by auto
qed


section \<open>Steps of the adapter\<close>

lemma bind_err_Inr [simp]: "bind_err (Inr x) f = f x"
  by (simp add: bind_err_def)

lemma bind_err_Inl [simp]: "bind_err (Inl e) f = Inl e"
  by (simp add: bind_err_def)

lemma bind_err_eq_Inr:
  "(bind_err m f = Inr y) = (\<exists>x. m = Inr x \<and> f x = Inr y)"
  by (cases m) simp_all

lemma getitem_eq_Inr:
  "(getitem t k = Inr v) = (\<exists>d. t = Dict d \<and> map_of d k = Some v)"
  by (cases t) (auto split: option.splits)

lemma setitem_eq_Inr:
  "(setitem t k v = Inr t') = (\<exists>d. t = Dict d \<and> t' = Dict (AList.update k v d))"
  by (cases t) auto

lemma overwrite_head_leaf_Inr:
  assumes "overwrite_head_leaf name init_params restored_params = Inr r"
  shows "\<exists>ih v h. map_of init_params ''head'' = Some (Dict ih) \<and> map_of ih name = Some v \<and>
           map_of restored_params ''head'' = Some (Dict h) \<and>
           r = AList.update ''head'' (Dict (AList.update name v h)) restored_params"
  using assms
  by (auto simp: overwrite_head_leaf_def bind_err_eq_Inr getitem_eq_Inr setitem_eq_Inr
      simp del: getitem.simps)

lemma overwrite_head_Inr:
  assumes "overwrite_head init_params restored_params = Inr r"
  shows "\<exists>ih kv bv h. map_of init_params ''head'' = Some (Dict ih) \<and>
           map_of ih ''kernel'' = Some kv \<and> map_of ih ''bias'' = Some bv \<and>
           map_of r ''head'' = Some (Dict h) \<and>
           map_of h ''kernel'' = Some kv \<and> map_of h ''bias'' = Some bv"
proof -
  from assms obtain r1 where
    1: "overwrite_head_leaf ''kernel'' init_params restored_params = Inr r1" and
    2: "overwrite_head_leaf ''bias'' init_params r1 = Inr r"
    by (auto simp: overwrite_head_def bind_err_eq_Inr)
  from overwrite_head_leaf_Inr [OF 1] obtain ih kv h where
    a: "map_of init_params ''head'' = Some (Dict ih)" "map_of ih ''kernel'' = Some kv"
       "r1 = AList.update ''head'' (Dict (AList.update ''kernel'' kv h)) restored_params"
    by blast
  from overwrite_head_leaf_Inr [OF 2] obtain ih' bv h' where
    b: "map_of init_params ''head'' = Some (Dict ih')" "map_of ih' ''bias'' = Some bv"
       "map_of r1 ''head'' = Some (Dict h')"
       "r = AList.update ''head'' (Dict (AList.update ''bias'' bv h')) r1"
    by blast
  from a b have ih: "ih' = ih" by simp
  from a(3) b(3) have h': "h' = AList.update ''kernel'' kv h"
    by (simp add: update_conv')
  show ?thesis
    using a b ih h' by (auto simp: update_conv')
qed

lemma overwrite_head_other:
  assumes "overwrite_head init_params restored_params = Inr r" and "k \<noteq> ''head''"
  shows "map_of r k = map_of restored_params k"
proof -
  from assms(1) obtain r1 where
    1: "overwrite_head_leaf ''kernel'' init_params restored_params = Inr r1" and
    2: "overwrite_head_leaf ''bias'' init_params r1 = Inr r"
    by (auto simp: overwrite_head_def bind_err_eq_Inr)
  from overwrite_head_leaf_Inr [OF 1] assms(2) have "map_of r1 k = map_of restored_params k"
    by (auto simp: update_conv')
  moreover from overwrite_head_leaf_Inr [OF 2] assms(2) have "map_of r k = map_of r1 k"
    by (auto simp: update_conv')
  ultimately show ?thesis by simp
qed

lemma add_prompt_other:
  assumes "add_prompt init_params cfg key r = Inr r'" and "k \<noteq> key"
  shows "map_of r' k = map_of r k"
  using assms
  by (auto simp: add_prompt_def Let_def bind_err_eq_Inr getitem_eq_Inr setitem_eq_Inr update_conv'
      simp del: getitem.simps split: if_splits option.splits)

lemma add_prompts_other:
  assumes "add_prompts init_params cfg keys r = Inr r'" and "k \<notin> set keys"
  shows "map_of r' k = map_of r k"
  using assms
proof (induction keys arbitrary: r)
  case Nil
  then show ?case by simp
next
  case (Cons key keys)
  from Cons.prems obtain r1 where
    1: "add_prompt init_params cfg key r = Inr r1" and
    2: "add_prompts init_params cfg keys r1 = Inr r'"
    by (auto simp: bind_err_eq_Inr)
  from Cons.prems have "k \<noteq> key" "k \<notin> set keys" by auto
  then show ?case
    using Cons.IH [OF 2] add_prompt_other [OF 1] by simp
qed

lemma resize_posembed_other:
  assumes "resize_posembed zoom init_params cfg r = Inr r'" and "k \<noteq> ''Transformer''"
  shows "map_of r' k = map_of r k"
  using assms
  by (auto simp: resize_posembed_def bind_err_eq_Inr update_conv' simp del: getitem.simps
      split: if_splits)

lemma load_pretrained_Inr:
  assumes "load_pretrained zoom params init_params cfg = Inr result"
  shows "\<exists>r1 r2 r3. inspect_params params init_params False False = Inr r1 \<and>
           overwrite_head init_params (drop_pre_logits cfg r1) = Inr r2 \<and>
           add_prompts init_params cfg
             [''shared_prompt'', ''task_specific_prompt'', ''prompt_pool''] r2 = Inr r3 \<and>
           resize_posembed zoom init_params cfg r3 = Inr result"
  using assms by (auto simp: load_pretrained_def substitute_params_def bind_err_eq_Inr)

text \<open>
  C5: whenever \<^verbatim>\<open>load_pretrained\<close> returns a tree, the kernel and the bias of its head are
  those of \<open>init_params\<close>, whatever the checkpoint holds.
\<close>

theorem load_pretrained_head:
  assumes "load_pretrained zoom params init_params cfg = Inr result"
  shows "\<exists>kernel bias.
           getpath (Dict init_params) [''head'', ''kernel''] = Inr kernel \<and>
           getpath (Dict result) [''head'', ''kernel''] = Inr kernel \<and>
           getpath (Dict init_params) [''head'', ''bias''] = Inr bias \<and>
           getpath (Dict result) [''head'', ''bias''] = Inr bias"
proof -
  from load_pretrained_Inr [OF assms] obtain r1 r2 r3 where
    2: "overwrite_head init_params (drop_pre_logits cfg r1) = Inr r2" and
    3: "add_prompts init_params cfg
          [''shared_prompt'', ''task_specific_prompt'', ''prompt_pool''] r2 = Inr r3" and
    4: "resize_posembed zoom init_params cfg r3 = Inr result"
    by blast
  from overwrite_head_Inr [OF 2] obtain ih kv bv h where
    h: "map_of init_params ''head'' = Some (Dict ih)"
       "map_of ih ''kernel'' = Some kv" "map_of ih ''bias'' = Some bv"
       "map_of r2 ''head'' = Some (Dict h)"
       "map_of h ''kernel'' = Some kv" "map_of h ''bias'' = Some bv"
    by blast
  have "map_of r3 ''head'' = map_of r2 ''head''"
    using add_prompts_other [OF 3, of "''head''"] by simp
  moreover have "map_of result ''head'' = map_of r3 ''head''"
    using resize_posembed_other [OF 4, of "''head''"] by simp
  ultimately have "map_of result ''head'' = Some (Dict h)"
    using h(4) by simp
  with h show ?thesis by simp
qed

theorem load_pretrained_head_witness:
  "load_pretrained (\<lambda>g n m. Inl ValueError)
      [(''head'', Dict [(''kernel'', Leaf (Tensor [1] [0 :: int])), (''bias'', Leaf (Tensor [1] [0]))]),
       (''pre_logits'', Dict [(''kernel'', Leaf (Tensor [1] [5]))])]
      [(''head'', Dict [(''kernel'', Leaf (Tensor [1] [1])), (''bias'', Leaf (Tensor [1] [2]))])]
      \<lparr>representation_size = None, use_cls_token = Some True, prompt_params = None\<rparr>
    = Inr [(''head'', Dict [(''kernel'', Leaf (Tensor [1] [1])), (''bias'', Leaf (Tensor [1] [2]))])] \<and>
   getpath (Dict [(''head'', Dict [(''kernel'', Leaf (Tensor [1] [1 :: int])), (''bias'', Leaf (Tensor [1] [2]))])])
     [''head'', ''kernel''] = Inr (Leaf (Tensor [1] [1]))"
proof -
  have e: "load_pretrained (\<lambda>g n m. Inl ValueError)
      [(''head'', Dict [(''kernel'', Leaf (Tensor [1] [0 :: int])), (''bias'', Leaf (Tensor [1] [0]))]),
       (''pre_logits'', Dict [(''kernel'', Leaf (Tensor [1] [5]))])]
      [(''head'', Dict [(''kernel'', Leaf (Tensor [1] [1])), (''bias'', Leaf (Tensor [1] [2]))])]
      \<lparr>representation_size = None, use_cls_token = Some True, prompt_params = None\<rparr>
    = Inr [(''head'', Dict [(''kernel'', Leaf (Tensor [1] [1])), (''bias'', Leaf (Tensor [1] [2]))])]"
    by code_simp
  show ?thesis
    using load_pretrained_head [OF e] e by simp
qed

lemma getpath_eq_Inr3:
  "(getpath (Dict d) [a, b, c] = Inr v) =
     (\<exists>d1 d2. map_of d a = Some (Dict d1) \<and> map_of d1 b = Some (Dict d2) \<and> map_of d2 c = Some v)"
  by (auto simp: bind_err_eq_Inr getitem_eq_Inr simp del: getitem.simps)

lemma resize_posembed_same_shape:
  assumes "getpath (Dict restored_params) [''Transformer'', ''posembed_input'', ''pos_embedding'']
             = Inr (Leaf posemb)"
    and "getpath (Dict init_params) [''Transformer'', ''posembed_input'', ''pos_embedding'']
             = Inr (Leaf posemb_new)"
    and "shape posemb = shape posemb_new"
  shows "resize_posembed zoom init_params cfg restored_params = Inr restored_params"
proof -
  from assms(1) obtain t p where
    r: "map_of restored_params ''Transformer'' = Some (Dict t)"
       "map_of t ''posembed_input'' = Some (Dict p)"
       "map_of p ''pos_embedding'' = Some (Leaf posemb)"
    unfolding getpath_eq_Inr3 by blast
  from assms(2) obtain t' p' where
    i: "map_of init_params ''Transformer'' = Some (Dict t')"
       "map_of t' ''posembed_input'' = Some (Dict p')"
       "map_of p' ''pos_embedding'' = Some (Leaf posemb_new)"
    unfolding getpath_eq_Inr3 by blast
  show ?thesis
    using r i assms(3) by (simp add: resize_posembed_def)
qed

text \<open>
  C9: when the position embedding of the restored tree has the shape of the expected one,
  \<^verbatim>\<open>load_pretrained\<close> returns the restored tree as it stands before lines 161 to 196:
  nothing is resampled, tiled or written, whatever \<open>zoom\<close> would do.
\<close>

theorem load_pretrained_same_shape:
  assumes "substitute_params params init_params cfg = Inr restored_params"
    and "getpath (Dict restored_params) [''Transformer'', ''posembed_input'', ''pos_embedding'']
             = Inr (Leaf posemb)"
    and "getpath (Dict init_params) [''Transformer'', ''posembed_input'', ''pos_embedding'']
             = Inr (Leaf posemb_new)"
    and "shape posemb = shape posemb_new"
  shows "load_pretrained zoom params init_params cfg = Inr restored_params"
  using assms(1) resize_posembed_same_shape [OF assms(2-4)]
  by (simp add: load_pretrained_def)

theorem load_pretrained_same_shape_witness:
  "load_pretrained (\<lambda>g n m. Inl ValueError)
      [(''Transformer'', Dict [(''posembed_input'', Dict [(''pos_embedding'', Leaf (Tensor [1, 2, 1] [5, 6 :: int]))])]),
       (''head'', Dict [(''kernel'', Leaf (Tensor [1] [0])), (''bias'', Leaf (Tensor [1] [0]))])]
      [(''Transformer'', Dict [(''posembed_input'', Dict [(''pos_embedding'', Leaf (Tensor [1, 2, 1] [0, 0]))])]),
       (''head'', Dict [(''kernel'', Leaf (Tensor [1] [1])), (''bias'', Leaf (Tensor [1] [2]))])]
      \<lparr>representation_size = None, use_cls_token = Some True, prompt_params = None\<rparr>
    = Inr [(''Transformer'', Dict [(''posembed_input'', Dict [(''pos_embedding'', Leaf (Tensor [1, 2, 1] [5, 6]))])]),
           (''head'', Dict [(''kernel'', Leaf (Tensor [1] [1])), (''bias'', Leaf (Tensor [1] [2]))])]"
proof -
  have e: "substitute_params
      [(''Transformer'', Dict [(''posembed_input'', Dict [(''pos_embedding'', Leaf (Tensor [1, 2, 1] [5, 6 :: int]))])]),
       (''head'', Dict [(''kernel'', Leaf (Tensor [1] [0])), (''bias'', Leaf (Tensor [1] [0]))])]
      [(''Transformer'', Dict [(''posembed_input'', Dict [(''pos_embedding'', Leaf (Tensor [1, 2, 1] [0, 0]))])]),
       (''head'', Dict [(''kernel'', Leaf (Tensor [1] [1])), (''bias'', Leaf (Tensor [1] [2]))])]
      \<lparr>representation_size = None, use_cls_token = Some True, prompt_params = None\<rparr>
    = Inr [(''Transformer'', Dict [(''posembed_input'', Dict [(''pos_embedding'', Leaf (Tensor [1, 2, 1] [5, 6]))])]),
           (''head'', Dict [(''kernel'', Leaf (Tensor [1] [1])), (''bias'', Leaf (Tensor [1] [2]))])]"
    by code_simp
  show ?thesis
    by (rule load_pretrained_same_shape [OF e, of "Tensor [1, 2, 1] [5, 6]" "Tensor [1, 2, 1] [0, 0]"])
       simp_all
qed

section \<open>Keys of a flattened tree\<close>

lemma set_update_subset: "set (AList.update k v al) \<subseteq> insert (k, v) (set al)"
  by (induction al) auto

lemma set_fold_update_subset:
  "set (fold (\<lambda>(k, v) d. AList.update k v d) items acc) \<subseteq> set items \<union> set acc"
proof (induction items arbitrary: acc)
  case Nil
  then show ?case by simp
next
  case (Cons kv items)
  obtain k v where kv: "kv = (k, v)" by (cases kv)
  have "set (fold (\<lambda>(k, v) d. AList.update k v d) items (AList.update k v acc))
      \<subseteq> set items \<union> set (AList.update k v acc)"
    by (rule Cons.IH)
  also have "\<dots> \<subseteq> set items \<union> insert (k, v) (set acc)"
    using set_update_subset [of k v acc] by blast
  finally show ?case by (auto simp: kv)
qed

lemma set_dict_of_subset: "set (dict_of items) \<subseteq> set items"
  using set_fold_update_subset [of items "[]"] by (simp add: dict_of_def)

lemma flatten_dict_keys:
  assumes "(k, v) \<in> set (flatten_dict d p)" and "p \<noteq> []"
  shows "(k = p \<and> d = []) \<or> (\<exists>r. k = p @ ''/'' @ r)"
  using assms
proof (induction d p arbitrary: k v rule: flatten_dict.induct)
  case (1 d parent_key)
  let ?items = "concat (map (\<lambda>(k, v).
         (let path = (if parent_key \<noteq> [] then parent_key @ ''/'' @ k else k) in
          case v of Dict d' \<Rightarrow> flatten_dict d' path | Leaf a \<Rightarrow> [(path, v)])) d)
       @ (if parent_key \<noteq> [] \<and> d = [] then [(parent_key, Dict [])] else [])"
  from "1.prems"(1) have "(k, v) \<in> set (dict_of ?items)"
    by (subst (asm) flatten_dict.simps) simp
  then have "(k, v) \<in> set ?items"
    using set_dict_of_subset [of ?items] by (rule set_rev_mp)
  then consider
    (tail) "k = parent_key" "d = []"
    | (child) k0 v0 where "(k0, v0) \<in> set d"
        "(k, v) \<in> set (case v0 of Dict d' \<Rightarrow> flatten_dict d' (parent_key @ CHR ''/'' # k0)
                                  | Leaf a \<Rightarrow> [(parent_key @ CHR ''/'' # k0, v0)])"
    using "1.prems"(2) by (auto simp: Let_def split: if_splits)
  then show ?case
  proof cases
    case tail
    then show ?thesis by simp
  next
    case child
    show ?thesis
    proof (cases v0)
      case (Leaf a)
      with child show ?thesis by auto
    next
      case (Dict d')
      with child have m: "(k, v) \<in> set (flatten_dict d' (parent_key @ CHR ''/'' # k0))" by simp
      have "(k = parent_key @ CHR ''/'' # k0 \<and> d' = []) \<or>
          (\<exists>r. k = (parent_key @ CHR ''/'' # k0) @ ''/'' @ r)"
        using "1.IH" [OF child(1) refl refl Dict] m "1.prems"(2) by simp
      then show ?thesis by auto
    qed
  qed
qed

lemma flatten_dict_top:
  assumes "(k, v) \<in> set (flatten_dict d [])"
  shows "\<exists>k0 v0. (k0, v0) \<in> set d \<and>
           ((\<exists>a. v0 = Leaf a \<and> k = k0) \<or> (\<exists>d'. v0 = Dict d' \<and> (k, v) \<in> set (flatten_dict d' k0)))"
proof -
  let ?items = "concat (map (\<lambda>(k, v).
         (case v of Dict d' \<Rightarrow> flatten_dict d' k | Leaf a \<Rightarrow> [(k, v)])) d)"
  from assms have "(k, v) \<in> set (dict_of ?items)"
    by (subst (asm) flatten_dict.simps) simp
  then have "(k, v) \<in> set ?items"
    using set_dict_of_subset [of ?items] by (rule set_rev_mp)
  then obtain k0 v0 where "(k0, v0) \<in> set d"
    "(k, v) \<in> set (case v0 of Dict d' \<Rightarrow> flatten_dict d' k0 | Leaf a \<Rightarrow> [(k0, v0)])"
    by auto
  then show ?thesis
    by (cases v0) auto
qed


lemma top_key_not_flat:
  assumes "distinct (map fst d)" and "[] \<notin> fst ` set d"
    and "map_of d k = Some (Dict h)" and "h \<noteq> []" and "CHR ''/'' \<notin> set k"
  shows "k \<notin> fst ` set (flatten_dict d [])"
proof
  assume "k \<in> fst ` set (flatten_dict d [])"
  then obtain v where "(k, v) \<in> set (flatten_dict d [])" by auto
  from flatten_dict_top [OF this] obtain k0 v0 where
    m: "(k0, v0) \<in> set d" and
    c: "(\<exists>a. v0 = Leaf a \<and> k = k0) \<or> (\<exists>d'. v0 = Dict d' \<and> (k, v) \<in> set (flatten_dict d' k0))"
    by blast
  from m assms(1) have v0: "map_of d k0 = Some v0" by simp
  from m assms(2) have k0: "k0 \<noteq> []" by force
  from c show False
  proof
    assume "\<exists>a. v0 = Leaf a \<and> k = k0"
    with v0 assms(3) show False by auto
  next
    assume "\<exists>d'. v0 = Dict d' \<and> (k, v) \<in> set (flatten_dict d' k0)"
    then obtain d' where d': "v0 = Dict d'" "(k, v) \<in> set (flatten_dict d' k0)" by blast
    from flatten_dict_keys [OF d'(2) k0] show False
    proof
      assume "k = k0 \<and> d' = []"
      with v0 d'(1) assms(3,4) show False by simp
    next
      assume "\<exists>r. k = k0 @ ''/'' @ r"
      with assms(5) show False by auto
    qed
  qed
qed

lemma map_of_fold_update_other:
  "k \<notin> set ks \<Longrightarrow> map_of (fold (\<lambda>k p. AList.update k v p) ks p) k = map_of p k"
  by (induction ks arbitrary: p) (auto simp: update_conv')

lemma inspect_params_lenient:
  "inspect_params params expected False False =
     Inr (fold (\<lambda>k p. AList.update k (Dict []) p)
            (filter (\<lambda>k. is_empty_dict (map_of (flatten_dict expected []) k))
               (filter (\<lambda>k. k \<notin> set (map fst (flatten_dict params [])))
                  (map fst (flatten_dict expected [])))) params)"
  by (simp add: inspect_params_def Let_def case_prod_unfold fold_add_back_empty_fst)

lemma inspect_params_keeps:
  assumes "k \<notin> fst ` set (flatten_dict expected [])"
  shows "\<exists>r. inspect_params params expected False False = Inr r \<and> map_of r k = map_of params k"
  unfolding inspect_params_lenient
  using assms by (simp add: map_of_fold_update_other)

lemma drop_pre_logits_other:
  "k \<noteq> ''pre_logits'' \<Longrightarrow> map_of (drop_pre_logits cfg r) k = map_of r k"
  by (simp add: drop_pre_logits_def)

text \<open>
  C10, as the code has it: when the restored tree has no \<open>head\<close> key, and the expected
  tree has unique, non-empty keys at its top and a kernel under its head, the inspection
  returns and \<^verbatim>\<open>load_pretrained\<close> ends with \<^verbatim>\<open>KeyError('head')\<close> at line 150.
\<close>

theorem load_pretrained_missing_head:
  assumes "map_of params ''head'' = None"
    and "distinct (map fst init_params)" and "[] \<notin> fst ` set init_params"
    and "getpath (Dict init_params) [''head'', ''kernel''] = Inr kv"
  shows "(\<exists>r. inspect_params params init_params False False = Inr r) \<and>
         load_pretrained zoom params init_params cfg = Inl (KeyError ''head'')"
proof -
  from assms(4) obtain ih where
    ih: "map_of init_params ''head'' = Some (Dict ih)" "map_of ih ''kernel'' = Some kv"
    by (auto simp: bind_err_eq_Inr getitem_eq_Inr simp del: getitem.simps)
  then have "ih \<noteq> []" by auto
  with assms(2,3) ih(1) have "''head'' \<notin> fst ` set (flatten_dict init_params [])"
    by (intro top_key_not_flat) simp_all
  from inspect_params_keeps [OF this] obtain r where
    r: "inspect_params params init_params False False = Inr r"
       "map_of r ''head'' = map_of params ''head''"
    by blast
  have "map_of (drop_pre_logits cfg r) ''head'' = None"
    using r(2) assms(1) by (simp add: drop_pre_logits_other)
  then have "overwrite_head init_params (drop_pre_logits cfg r) = Inl (KeyError ''head'')"
    using ih by (simp add: overwrite_head_def overwrite_head_leaf_def)
  with r(1) show ?thesis
    by (simp add: load_pretrained_def substitute_params_def)
qed

theorem load_pretrained_missing_head_witness:
  "load_pretrained (\<lambda>g n m. Inl ValueError)
      [(''Transformer'', Dict [])]
      [(''head'', Dict [(''kernel'', Leaf (Tensor [1] [1 :: int])), (''bias'', Leaf (Tensor [1] [2]))])]
      \<lparr>representation_size = None, use_cls_token = Some True, prompt_params = None\<rparr>
    = Inl (KeyError ''head'')"
  using load_pretrained_missing_head [of "[(''Transformer'', Dict [])]"
      "[(''head'', Dict [(''kernel'', Leaf (Tensor [1] [1 :: int])), (''bias'', Leaf (Tensor [1] [2]))])]"
      "Leaf (Tensor [1] [1])" "\<lambda>g n m. Inl ValueError"
      "\<lparr>representation_size = None, use_cls_token = Some True, prompt_params = None\<rparr>"]
  by simp

text \<open>
  A head that is there but has no \<open>bias\<close> does not make \<^verbatim>\<open>load_pretrained\<close> fail: the
  assignment of line 151 creates the entry.
\<close>

theorem load_pretrained_missing_bias_counterexample:
  "load_pretrained (\<lambda>g n m. Inl ValueError)
      [(''head'', Dict [(''kernel'', Leaf (Tensor [1] [0 :: int]))])]
      [(''head'', Dict [(''kernel'', Leaf (Tensor [1] [1])), (''bias'', Leaf (Tensor [1] [2]))])]
      \<lparr>representation_size = None, use_cls_token = Some True, prompt_params = None\<rparr>
    = Inr [(''head'', Dict [(''kernel'', Leaf (Tensor [1] [1])), (''bias'', Leaf (Tensor [1] [2]))])]"
  by code_simp

section \<open>Prompt groups\<close>

lemma add_prompt_present:
  "contains (Dict r) key \<Longrightarrow> add_prompt init_params cfg key r = Inr r"
  by (simp add: add_prompt_def)

lemma add_prompt_not_expected:
  "\<not> contains (Dict init_params) key \<Longrightarrow> add_prompt init_params cfg key r = Inr r"
  by (simp add: add_prompt_def)

lemma add_prompt_unfold:
  assumes "contains (Dict init_params) key" and "\<not> contains (Dict r) key"
  shows "add_prompt init_params cfg key r =
     (case map_of init_params key of
        None \<Rightarrow> Inl (KeyError key)
      | Some (Leaf a) \<Rightarrow> Inl IndexError
      | Some (Dict ig) \<Rightarrow>
          (case map_of ig ''prompt'' of
             None \<Rightarrow> Inl (KeyError ''prompt'')
           | Some p \<Rightarrow>
               if key = ''prompt_pool''
               then (case prompt_params cfg of
                       None \<Rightarrow> Inl (KeyError ''prompt_params'')
                     | Some pp \<Rightarrow>
                         (case map_of pp ''prompt_pool'' of
                            None \<Rightarrow> Inl (KeyError ''prompt_pool'')
                          | Some pc \<Rightarrow>
                              if prompt_key pc
                              then (case map_of ig ''key'' of
                                      None \<Rightarrow> Inl (KeyError ''key'')
                                    | Some kv \<Rightarrow>
                                        Inr (AList.update key
                                               (Dict [(''prompt'', p), (''key'', kv)]) r))
                              else Inr (AList.update key (Dict [(''prompt'', p)]) r)))
               else Inr (AList.update key (Dict [(''prompt'', p)]) r)))"
  using assms
  by (simp add: add_prompt_def Let_def update_conv' split: option.splits ptree.splits)

lemma add_prompt_new:
  assumes "add_prompt init_params cfg key r = Inr r'"
    and "contains (Dict init_params) key" and "\<not> contains (Dict r) key"
  shows "\<exists>p. getpath (Dict init_params) [key, ''prompt''] = Inr p \<and>
           (if key = ''prompt_pool'' \<and> prompt_key_set cfg
            then \<exists>kv. getpath (Dict init_params) [key, ''key''] = Inr kv \<and>
                   map_of r' key = Some (Dict [(''prompt'', p), (''key'', kv)])
            else map_of r' key = Some (Dict [(''prompt'', p)]))"
proof -
  from assms(1) obtain ig p where
    ig: "map_of init_params key = Some (Dict ig)" and p: "map_of ig ''prompt'' = Some p"
    unfolding add_prompt_unfold [OF assms(2,3)]
    by (auto split: option.splits ptree.splits)
  have gp: "getpath (Dict init_params) [key, ''prompt''] = Inr p"
    using ig p by simp
  show ?thesis
  proof (cases "key = ''prompt_pool'' \<and> prompt_key_set cfg")
    case True
    then obtain pp pc where
      c: "prompt_params cfg = Some pp" "map_of pp ''prompt_pool'' = Some pc" "prompt_key pc"
      by (auto simp: prompt_key_set_def split: option.splits)
    from assms(1) obtain kv where
      kv: "map_of ig ''key'' = Some kv"
          "r' = AList.update key (Dict [(''prompt'', p), (''key'', kv)]) r"
      unfolding add_prompt_unfold [OF assms(2,3)]
      using True ig p c by (auto split: option.splits)
    have "getpath (Dict init_params) [key, ''key''] = Inr kv"
      using ig kv(1) by simp
    with True gp kv(2) show ?thesis
      by (auto simp: update_conv')
  next
    case False
    from assms(1) have "r' = AList.update key (Dict [(''prompt'', p)]) r"
      unfolding add_prompt_unfold [OF assms(2,3)]
      using False ig p by (auto simp: prompt_key_set_def split: option.splits if_splits)
    with False gp show ?thesis
      by (auto simp: update_conv')
  qed
qed

lemma add_prompts_step:
  assumes "add_prompts init_params cfg keys r = Inr r'" and "distinct keys" and "key \<in> set keys"
  shows "\<exists>ra rb. add_prompt init_params cfg key ra = Inr rb \<and>
           map_of ra key = map_of r key \<and> map_of r' key = map_of rb key"
  using assms
proof (induction keys arbitrary: r)
  case Nil
  then show ?case by simp
next
  case (Cons k keys)
  from Cons.prems(1) obtain r1 where
    1: "add_prompt init_params cfg k r = Inr r1" and
    2: "add_prompts init_params cfg keys r1 = Inr r'"
    by (auto simp: bind_err_eq_Inr)
  show ?case
  proof (cases "key = k")
    case True
    with Cons.prems(2) have "key \<notin> set keys" by simp
    then have "map_of r' key = map_of r1 key"
      using add_prompts_other [OF 2] by simp
    with 1 True show ?thesis by blast
  next
    case False
    with Cons.prems have "distinct keys" "key \<in> set keys" by auto
    from Cons.IH [OF 2 this] obtain ra rb where
      "add_prompt init_params cfg key ra = Inr rb" "map_of ra key = map_of r1 key"
      "map_of r' key = map_of rb key"
      by blast
    moreover have "map_of r1 key = map_of r key"
      using add_prompt_other [OF 1] False by simp
    ultimately show ?thesis by auto
  qed
qed

text \<open>
  The loop of lines 153 to 159 on its own: what it leaves under each of the three keys.
\<close>

lemma add_prompts_groups:
  assumes "add_prompts init_params cfg
             [''shared_prompt'', ''task_specific_prompt'', ''prompt_pool''] restored_params
           = Inr result"
    and "key \<in> set [''shared_prompt'', ''task_specific_prompt'', ''prompt_pool'']"
  shows "if contains (Dict restored_params) key
         then map_of result key = map_of restored_params key
         else if contains (Dict init_params) key
         then \<exists>p. getpath (Dict init_params) [key, ''prompt''] = Inr p \<and>
                (if key = ''prompt_pool'' \<and> prompt_key_set cfg
                 then \<exists>kv. getpath (Dict init_params) [key, ''key''] = Inr kv \<and>
                        map_of result key = Some (Dict [(''prompt'', p), (''key'', kv)])
                 else map_of result key = Some (Dict [(''prompt'', p)]))
         else map_of result key = None"
proof -
  have "distinct [''shared_prompt'', ''task_specific_prompt'', ''prompt_pool'']" by simp
  from add_prompts_step [OF assms(1) this assms(2)] obtain ra rb where
    s: "add_prompt init_params cfg key ra = Inr rb"
       "map_of ra key = map_of restored_params key" "map_of result key = map_of rb key"
    by blast
  have c: "contains (Dict ra) key = contains (Dict restored_params) key"
    using s(2) by simp
  show ?thesis
  proof (cases "contains (Dict restored_params) key")
    case True
    with c s show ?thesis by (simp add: add_prompt_present)
  next
    case absent: False
    show ?thesis
    proof (cases "contains (Dict init_params) key")
      case True
      from absent c have "\<not> contains (Dict ra) key" by simp
      from add_prompt_new [OF s(1) True this] obtain p where
        p: "getpath (Dict init_params) [key, ''prompt''] = Inr p"
           "if key = ''prompt_pool'' \<and> prompt_key_set cfg
            then \<exists>kv. getpath (Dict init_params) [key, ''key''] = Inr kv \<and>
                   map_of rb key = Some (Dict [(''prompt'', p), (''key'', kv)])
            else map_of rb key = Some (Dict [(''prompt'', p)])"
        by blast
      have "if key = ''prompt_pool'' \<and> prompt_key_set cfg
            then \<exists>kv. getpath (Dict init_params) [key, ''key''] = Inr kv \<and>
                   map_of result key = Some (Dict [(''prompt'', p), (''key'', kv)])
            else map_of result key = Some (Dict [(''prompt'', p)])"
        using p(2) unfolding s(3) .
      with p(1) have "\<exists>p. getpath (Dict init_params) [key, ''prompt''] = Inr p \<and>
                (if key = ''prompt_pool'' \<and> prompt_key_set cfg
                 then \<exists>kv. getpath (Dict init_params) [key, ''key''] = Inr kv \<and>
                        map_of result key = Some (Dict [(''prompt'', p), (''key'', kv)])
                 else map_of result key = Some (Dict [(''prompt'', p)]))"
        by blast
      with absent True show ?thesis by (simp only: if_False if_True)
    next
      case False
      with absent s c show ?thesis by (simp add: add_prompt_not_expected)
    qed
  qed
qed

text \<open>
  C7: in the tree that \<^verbatim>\<open>load_pretrained\<close> returns, each of the three prompt groups that
  the restored tree (what \<^verbatim>\<open>inspect_params\<close> returned) already had is as it was there; a
  group of the expected tree that the restored tree lacked holds the expected \<open>prompt\<close>,
  and for \<open>prompt_pool\<close> with a set \<open>prompt_key\<close> also the expected \<open>key\<close>, and nothing
  else; a group in neither tree is not created.
\<close>

theorem load_pretrained_prompt_groups:
  assumes "load_pretrained zoom params init_params cfg = Inr result"
    and "inspect_params params init_params False False = Inr restored_params"
    and "key \<in> set [''shared_prompt'', ''task_specific_prompt'', ''prompt_pool'']"
  shows "if contains (Dict restored_params) key
         then map_of result key = map_of restored_params key
         else if contains (Dict init_params) key
         then \<exists>p. getpath (Dict init_params) [key, ''prompt''] = Inr p \<and>
                (if key = ''prompt_pool'' \<and> prompt_key_set cfg
                 then \<exists>kv. getpath (Dict init_params) [key, ''key''] = Inr kv \<and>
                        map_of result key = Some (Dict [(''prompt'', p), (''key'', kv)])
                 else map_of result key = Some (Dict [(''prompt'', p)]))
         else map_of result key = None"
proof -
  from load_pretrained_Inr [OF assms(1)] assms(2) obtain r2 r3 where
    2: "overwrite_head init_params (drop_pre_logits cfg restored_params) = Inr r2" and
    3: "add_prompts init_params cfg
          [''shared_prompt'', ''task_specific_prompt'', ''prompt_pool''] r2 = Inr r3" and
    4: "resize_posembed zoom init_params cfg r3 = Inr result"
    by auto
  from assms(3) have ne: "key \<noteq> ''head''" "key \<noteq> ''pre_logits''" "key \<noteq> ''Transformer''"
    by auto
  have a: "map_of r2 key = map_of restored_params key"
    using overwrite_head_other [OF 2 ne(1)] drop_pre_logits_other [OF ne(2)] by simp
  have b: "map_of r3 key = map_of result key"
    using resize_posembed_other [OF 4 ne(3)] by simp
  have c: "contains (Dict r2) key = contains (Dict restored_params) key"
    using a by simp
  have "if contains (Dict r2) key
         then map_of r3 key = map_of r2 key
         else if contains (Dict init_params) key
         then \<exists>p. getpath (Dict init_params) [key, ''prompt''] = Inr p \<and>
                (if key = ''prompt_pool'' \<and> prompt_key_set cfg
                 then \<exists>kv. getpath (Dict init_params) [key, ''key''] = Inr kv \<and>
                        map_of r3 key = Some (Dict [(''prompt'', p), (''key'', kv)])
                 else map_of r3 key = Some (Dict [(''prompt'', p)]))
         else map_of r3 key = None"
    by (rule add_prompts_groups [OF 3 assms(3)])
  then show ?thesis
    unfolding c a b .
qed

theorem load_pretrained_prompt_groups_witness:
  "load_pretrained (\<lambda>g n m. Inl ValueError)
      [(''head'', Dict [(''kernel'', Leaf (Tensor [1] [0 :: int])), (''bias'', Leaf (Tensor [1] [0]))]),
       (''task_specific_prompt'', Dict [(''prompt'', Leaf (Tensor [1] [9]))])]
      [(''head'', Dict [(''kernel'', Leaf (Tensor [1] [1])), (''bias'', Leaf (Tensor [1] [2]))]),
       (''shared_prompt'', Dict [(''prompt'', Leaf (Tensor [1] [3]))]),
       (''task_specific_prompt'', Dict [(''prompt'', Leaf (Tensor [1] [4]))]),
       (''prompt_pool'', Dict [(''prompt'', Leaf (Tensor [1] [5])), (''key'', Leaf (Tensor [1] [6]))])]
      \<lparr>representation_size = None, use_cls_token = Some True,
       prompt_params = Some [(''prompt_pool'', \<lparr>prompt_length = 5, top_k = 2, prompt_key = True\<rparr>)]\<rparr>
    = Inr [(''head'', Dict [(''kernel'', Leaf (Tensor [1] [1])), (''bias'', Leaf (Tensor [1] [2]))]),
           (''task_specific_prompt'', Dict [(''prompt'', Leaf (Tensor [1] [9]))]),
           (''shared_prompt'', Dict [(''prompt'', Leaf (Tensor [1] [3]))]),
           (''prompt_pool'', Dict [(''prompt'', Leaf (Tensor [1] [5])), (''key'', Leaf (Tensor [1] [6]))])] \<and>
   map_of [(''head'', Dict [(''kernel'', Leaf (Tensor [1] [1 :: int])), (''bias'', Leaf (Tensor [1] [2]))]),
           (''task_specific_prompt'', Dict [(''prompt'', Leaf (Tensor [1] [9]))]),
           (''shared_prompt'', Dict [(''prompt'', Leaf (Tensor [1] [3]))]),
           (''prompt_pool'', Dict [(''prompt'', Leaf (Tensor [1] [5])), (''key'', Leaf (Tensor [1] [6]))])]
       ''prompt_pool''
    = Some (Dict [(''prompt'', Leaf (Tensor [1] [5])), (''key'', Leaf (Tensor [1] [6]))])"
proof -
  have e: "load_pretrained (\<lambda>g n m. Inl ValueError)
      [(''head'', Dict [(''kernel'', Leaf (Tensor [1] [0 :: int])), (''bias'', Leaf (Tensor [1] [0]))]),
       (''task_specific_prompt'', Dict [(''prompt'', Leaf (Tensor [1] [9]))])]
      [(''head'', Dict [(''kernel'', Leaf (Tensor [1] [1])), (''bias'', Leaf (Tensor [1] [2]))]),
       (''shared_prompt'', Dict [(''prompt'', Leaf (Tensor [1] [3]))]),
       (''task_specific_prompt'', Dict [(''prompt'', Leaf (Tensor [1] [4]))]),
       (''prompt_pool'', Dict [(''prompt'', Leaf (Tensor [1] [5])), (''key'', Leaf (Tensor [1] [6]))])]
      \<lparr>representation_size = None, use_cls_token = Some True,
       prompt_params = Some [(''prompt_pool'', \<lparr>prompt_length = 5, top_k = 2, prompt_key = True\<rparr>)]\<rparr>
    = Inr [(''head'', Dict [(''kernel'', Leaf (Tensor [1] [1])), (''bias'', Leaf (Tensor [1] [2]))]),
           (''task_specific_prompt'', Dict [(''prompt'', Leaf (Tensor [1] [9]))]),
           (''shared_prompt'', Dict [(''prompt'', Leaf (Tensor [1] [3]))]),
           (''prompt_pool'', Dict [(''prompt'', Leaf (Tensor [1] [5])), (''key'', Leaf (Tensor [1] [6]))])]"
    by code_simp
  have i: "inspect_params
      [(''head'', Dict [(''kernel'', Leaf (Tensor [1] [0 :: int])), (''bias'', Leaf (Tensor [1] [0]))]),
       (''task_specific_prompt'', Dict [(''prompt'', Leaf (Tensor [1] [9]))])]
      [(''head'', Dict [(''kernel'', Leaf (Tensor [1] [1])), (''bias'', Leaf (Tensor [1] [2]))]),
       (''shared_prompt'', Dict [(''prompt'', Leaf (Tensor [1] [3]))]),
       (''task_specific_prompt'', Dict [(''prompt'', Leaf (Tensor [1] [4]))]),
       (''prompt_pool'', Dict [(''prompt'', Leaf (Tensor [1] [5])), (''key'', Leaf (Tensor [1] [6]))])]
      False False
    = Inr [(''head'', Dict [(''kernel'', Leaf (Tensor [1] [0])), (''bias'', Leaf (Tensor [1] [0]))]),
           (''task_specific_prompt'', Dict [(''prompt'', Leaf (Tensor [1] [9]))])]"
    by code_simp
  show ?thesis
    using load_pretrained_prompt_groups [OF e i, of "''prompt_pool''"] e
    by (simp add: prompt_key_set_def)
qed

section \<open>Resizing the position embedding\<close>

lemma split_posemb_first:
  assumes "0 < token_len" and "shape posemb = [1, n, c]" and "length (data posemb) = n * c"
    and "0 < n"
  shows "split_posemb token_len posemb ntok_new =
           Inr (Tensor [1, nat token_len, c]
                  (concat (replicate (nat token_len) (take c (data posemb)))),
                Tensor [n - 1, c] (drop c (data posemb)),
                ntok_new - token_len)"
  using assms
  by (simp add: split_posemb_def slice_tokens_def tokens_from_def tile_tokens_def bind_err_def
        chunks_def)

lemma isqrt_196: "isqrt 196 = 14"
  by code_simp

lemma isqrt_400: "isqrt 400 = 20"
  by code_simp

text \<open>
  Lines 168 to 195 for 197 restored tokens, 401 expected tokens and one token slot: the
  grid of 14 by 14 tokens goes to \<open>zoom\<close>, and the result is the first restored token
  followed by what \<open>zoom\<close> returns.
\<close>

lemma resample_posemb_197_401:
  assumes "zoom_resizes_grid zoom" and "token_len_of cfg = 1"
    and "shape posemb = [1, 197, c]" and "length (data posemb) = 197 * c"
    and "shape posemb_new = [1, 401, c]"
  shows "\<exists>z. zoom (Tensor [14, 14, c] (drop c (data posemb))) 20 14 = Inr z \<and>
           shape z = [20, 20, c] \<and> length (data z) = 400 * c \<and>
           resample_posemb zoom cfg posemb posemb_new =
             Inr (Tensor [1, 401, c] (take c (data posemb) @ data z))"
proof -
  let ?tok = "Tensor [1, 1, c] (take c (data posemb))"
  let ?grid = "Tensor [196, c] (drop c (data posemb))"
  let ?g1 = "Tensor [14, 14, c] (drop c (data posemb))"
  have split: "split_posemb 1 posemb 401 = Inr (?tok, ?grid, 400)"
    using split_posemb_first [of 1 posemb 197 c 401] assms(3,4) by simp
  have len_grid': "length (data posemb) - c = 196 * c"
    using assms(4) by simp
  have r1: "reshape3 14 14 ?grid = Inr ?g1"
    by (simp add: reshape3_def len_grid')
  have "shape ?g1 = [14, 14, c] \<and> length (data ?g1) = 14 * 14 * c \<and> (0::nat) < 14 \<and> (0::nat) < 20"
    by (simp add: len_grid')
  with assms(1) obtain z where
    z: "zoom ?g1 20 14 = Inr z" "shape z = [20, 20, c]" "length (data z) = 20 * 20 * c"
    unfolding zoom_resizes_grid_def by blast
  have r2: "reshape3 1 (20 * 20) z = Inr (Tensor [1, 400, c] (data z))"
    using z(3) by (simp add: reshape3_def)
  have cat: "concatenate1 ?tok (Tensor [1, 400, c] (data z)) =
      Inr (Tensor [1, 401, c] (take c (data posemb) @ data z))"
    using z(3) assms(4) by (simp add: concatenate1_def chunks_def)
  have "resample_posemb zoom cfg posemb posemb_new =
      Inr (Tensor [1, 401, c] (take c (data posemb) @ data z))"
    using assms(2,5) split r1 z(1) r2 cat
    by (simp add: resample_posemb_def isqrt_196 isqrt_400)
  with z show ?thesis by simp
qed

text \<open>
  C6: with a restored embedding of shape \<open>[1, 197, c]\<close>, an expected one of shape
  \<open>[1, 401, c]\<close> and one token slot, \<^verbatim>\<open>load_pretrained\<close> returns a tree whose position
  embedding has shape \<open>[1, 401, c]\<close> and \<open>401 * c\<close> elements; its slot 0 is slot 0 of the
  restored embedding, and the 400 slots after it are what \<open>zoom\<close> returns for the 14 by 14
  grid of the other restored tokens. This holds for every \<open>zoom\<close> that returns grids of the
  requested side.
\<close>

theorem load_pretrained_resample_197_to_401:
  assumes "zoom_resizes_grid zoom" and "token_len_of cfg = 1"
    and "substitute_params params init_params cfg = Inr restored_params"
    and "getpath (Dict restored_params) [''Transformer'', ''posembed_input'', ''pos_embedding'']
           = Inr (Leaf posemb)"
    and "getpath (Dict init_params) [''Transformer'', ''posembed_input'', ''pos_embedding'']
           = Inr (Leaf posemb_new)"
    and "shape posemb = [1, 197, c]" and "length (data posemb) = 197 * c"
    and "shape posemb_new = [1, 401, c]"
  shows "\<exists>z out result.
           zoom (Tensor [14, 14, c] (drop c (data posemb))) 20 14 = Inr z \<and>
           resample_posemb zoom cfg posemb posemb_new = Inr out \<and>
           load_pretrained zoom params init_params cfg = Inr result \<and>
           getpath (Dict result) [''Transformer'', ''posembed_input'', ''pos_embedding'']
             = Inr (Leaf out) \<and>
           shape out = [1, 401, c] \<and> length (data out) = 401 * c \<and>
           take c (data out) = take c (data posemb) \<and> drop c (data out) = data z"
proof -
  from resample_posemb_197_401 [OF assms(1,2,6,7,8)] obtain z where
    z: "zoom (Tensor [14, 14, c] (drop c (data posemb))) 20 14 = Inr z"
       "length (data z) = 400 * c"
       "resample_posemb zoom cfg posemb posemb_new =
          Inr (Tensor [1, 401, c] (take c (data posemb) @ data z))"
    by blast
  let ?out = "Tensor [1, 401, c] (take c (data posemb) @ data z)"
  from assms(4) obtain t p where
    r: "map_of restored_params ''Transformer'' = Some (Dict t)"
       "map_of t ''posembed_input'' = Some (Dict p)"
       "map_of p ''pos_embedding'' = Some (Leaf posemb)"
    unfolding getpath_eq_Inr3 by blast
  from assms(5) obtain t' p' where
    i: "map_of init_params ''Transformer'' = Some (Dict t')"
       "map_of t' ''posembed_input'' = Some (Dict p')"
       "map_of p' ''pos_embedding'' = Some (Leaf posemb_new)"
    unfolding getpath_eq_Inr3 by blast
  let ?result = "AList.update ''Transformer''
       (Dict (AList.update ''posembed_input''
          (Dict (AList.update ''pos_embedding'' (Leaf ?out) p)) t)) restored_params"
  have ne: "shape posemb \<noteq> shape posemb_new"
    using assms(6,8) by simp
  have "resize_posembed zoom init_params cfg restored_params = Inr ?result"
    using r i ne z(3) by (simp add: resize_posembed_def)
  then have run: "load_pretrained zoom params init_params cfg = Inr ?result"
    using assms(3) by (simp add: load_pretrained_def)
  have path: "getpath (Dict ?result) [''Transformer'', ''posembed_input'', ''pos_embedding'']
      = Inr (Leaf ?out)"
    unfolding getpath_eq_Inr3 by (simp add: update_conv')
  have len: "length (data ?out) = 401 * c"
    using assms(7) z(2) by simp
  have tk: "take c (data ?out) = take c (data posemb)"
    using assms(7) by simp
  have dr: "drop c (data ?out) = data z"
    using assms(7) by simp
  show ?thesis
    using z(1,3) run path len tk dr by (intro exI [of _ z] exI [of _ ?out] exI [of _ ?result]) simp
qed

theorem load_pretrained_resample_197_to_401_witness:
  "\<exists>result out.
     load_pretrained
       (\<lambda>g n m. Inr (Tensor [n, n, last (shape g)] (replicate (n * n * last (shape g)) (9 :: int))))
       [(''Transformer'', Dict [(''posembed_input'',
            Dict [(''pos_embedding'', Leaf (Tensor [1, 197, 1] (7 # replicate 196 0)))])]),
        (''head'', Dict [(''kernel'', Leaf (Tensor [1] [0])), (''bias'', Leaf (Tensor [1] [0]))])]
       [(''Transformer'', Dict [(''posembed_input'',
            Dict [(''pos_embedding'', Leaf (Tensor [1, 401, 1] (replicate 401 0)))])]),
        (''head'', Dict [(''kernel'', Leaf (Tensor [1] [1])), (''bias'', Leaf (Tensor [1] [2]))])]
       \<lparr>representation_size = None, use_cls_token = Some True, prompt_params = None\<rparr>
     = Inr result \<and>
     getpath (Dict result) [''Transformer'', ''posembed_input'', ''pos_embedding''] = Inr (Leaf out) \<and>
     shape out = [1, 401, 1] \<and> length (data out) = 401 \<and>
     take 1 (data out) = [7] \<and> drop 1 (data out) = replicate 400 9"
proof -
  let ?P = "[(''Transformer'', Dict [(''posembed_input'',
            Dict [(''pos_embedding'', Leaf (Tensor [1, 197, 1] (7 # replicate 196 (0 :: int))))])]),
        (''head'', Dict [(''kernel'', Leaf (Tensor [1] [0])), (''bias'', Leaf (Tensor [1] [0]))])]"
  let ?I = "[(''Transformer'', Dict [(''posembed_input'',
            Dict [(''pos_embedding'', Leaf (Tensor [1, 401, 1] (replicate 401 (0 :: int))))])]),
        (''head'', Dict [(''kernel'', Leaf (Tensor [1] [1])), (''bias'', Leaf (Tensor [1] [2]))])]"
  let ?C = "\<lparr>representation_size = None, use_cls_token = Some True, prompt_params = None\<rparr>"
  let ?R = "[(''Transformer'', Dict [(''posembed_input'',
            Dict [(''pos_embedding'', Leaf (Tensor [1, 197, 1] (7 # replicate 196 (0 :: int))))])]),
        (''head'', Dict [(''kernel'', Leaf (Tensor [1] [1])), (''bias'', Leaf (Tensor [1] [2]))])]"
  have s: "substitute_params ?P ?I ?C = Inr ?R"
    by code_simp
  show ?thesis
    using load_pretrained_resample_197_to_401 [of
      "\<lambda>g n m. Inr (Tensor [n, n, last (shape g)] (replicate (n * n * last (shape g)) (9 :: int)))"
      ?C ?P ?I ?R "Tensor [1, 197, 1] (7 # replicate 196 0)"
      "Tensor [1, 401, 1] (replicate 401 0)" 1] s
    by (simp add: zoom_resizes_grid_def token_len_of_def del: replicate_Suc) blast
qed

section \<open>Flattening and recovering\<close>

lemma rel_items_Nil [simp]: "rel_items [] = []"
  by (simp add: rel_items.simps)

lemma rel_items_Cons:
  "rel_items ((k, v) # d) =
     (case v of
        Leaf a \<Rightarrow> [(k, v)]
      | Dict d' \<Rightarrow> if d' = [] then [(k, Dict [])]
                   else map (\<lambda>(r, w). (k @ ''/'' @ r, w)) (rel_items d')) @ rel_items d"
  by (subst rel_items.simps, subst (3) rel_items.simps) simp

lemma rel_items_nonempty: "d \<noteq> [] \<Longrightarrow> rel_items d \<noteq> []"
proof (induction d rule: rel_items.induct)
  case (1 d)
  then obtain k v d0 where d: "d = (k, v) # d0" by (cases d) auto
  show ?case
  proof (cases v)
    case (Leaf a)
    then show ?thesis by (simp add: d rel_items_Cons)
  next
    case (Dict d')
    then show ?thesis
      using "1.IH" [of "(k, v)" k v d'] by (simp add: d rel_items_Cons)
  qed
qed

lemma update_fresh: "k \<notin> fst ` set al \<Longrightarrow> AList.update k v al = al @ [(k, v)]"
  by (induction al) auto

lemma fold_update_fresh:
  "distinct (map fst t @ map fst gs) \<Longrightarrow>
   fold (\<lambda>(k, x) t. AList.update k (h k x) t) gs t = t @ map (\<lambda>(k, x). (k, h k x)) gs"
proof (induction gs arbitrary: t)
  case Nil
  then show ?case by simp
next
  case (Cons g gs)
  obtain k x where g: "g = (k, x)" by (cases g)
  from Cons.prems have fresh: "k \<notin> fst ` set t" by (auto simp: g)
  from Cons.prems have "distinct (map fst (t @ [(k, h k x)]) @ map fst gs)" by (auto simp: g)
  from Cons.IH [OF this] fresh show ?case by (simp add: g update_fresh)
qed

lemma dict_of_distinct: "distinct (map fst xs) \<Longrightarrow> dict_of xs = xs"
  using fold_update_fresh [of "[]" xs "\<lambda>k x. x"] by (simp add: dict_of_def)

lemma first_seg_plain: "CHR ''/'' \<notin> set k \<Longrightarrow> first_seg k = k"
  by (auto simp: first_seg_def)

lemma first_seg_joined: "CHR ''/'' \<notin> set k \<Longrightarrow> first_seg (k @ CHR ''/'' # r) = k"
  by (auto simp: first_seg_def takeWhile_tail)

lemma distinct_concat_blocks:
  assumes "distinct (map fst d)"
    and "\<And>k v. (k, v) \<in> set d \<Longrightarrow> distinct (B (k, v))"
    and "\<And>k v key. (k, v) \<in> set d \<Longrightarrow> key \<in> set (B (k, v)) \<Longrightarrow> g key = k"
  shows "distinct (concat (map B d))"
  using assms
proof (induction d)
  case Nil
  then show ?case by simp
next
  case (Cons x d)
  obtain k v where x: "x = (k, v)" by (cases x)
  have 1: "distinct (B (k, v))" using Cons.prems(2) [of k v] by (simp add: x)
  have 2: "distinct (concat (map B d))"
  proof (rule Cons.IH)
    show "distinct (map fst d)" using Cons.prems(1) by simp
  next
    fix k v assume "(k, v) \<in> set d"
    then show "distinct (B (k, v))" using Cons.prems(2) [of k v] by simp
  next
    fix k v key assume "(k, v) \<in> set d" "key \<in> set (B (k, v))"
    then show "g key = k" using Cons.prems(3) [of k v key] by simp
  qed
  have 3: "set (B (k, v)) \<inter> set (concat (map B d)) = {}"
  proof (rule ccontr)
    assume "set (B (k, v)) \<inter> set (concat (map B d)) \<noteq> {}"
    then obtain key k' v' where key: "key \<in> set (B (k, v))" "(k', v') \<in> set d"
      "key \<in> set (B (k', v'))"
      by auto
    have "g key = k" using Cons.prems(3) [of k v key] key(1) by (simp add: x)
    moreover have "g key = k'" using Cons.prems(3) [of k' v' key] key(2,3) by auto
    ultimately have "k \<in> fst ` set d" using key(2) by force
    with Cons.prems(1) show False by (simp add: x)
  qed
  from 1 2 3 show ?case by (simp add: x)
qed

lemma wf_tree_child:
  "wf_tree (Dict d) \<Longrightarrow> (k, Dict d') \<in> set d \<Longrightarrow> wf_tree (Dict d')"
  by (induction d) auto

lemma sep_free_child:
  "sep_free (Dict d) \<Longrightarrow> (k, Dict d') \<in> set d \<Longrightarrow> sep_free (Dict d')"
  by (induction d) auto

lemma sep_free_key:
  "sep_free (Dict d) \<Longrightarrow> (k, v) \<in> set d \<Longrightarrow> CHR ''/'' \<notin> set k"
  by (auto simp: list_all_iff)

lemma rel_items_blocks: "rel_items d = concat (map block d)"
  by (subst rel_items.simps, rule arg_cong [where f = concat], rule map_cong) auto

lemma block_first_seg:
  assumes "CHR ''/'' \<notin> set k" and "key \<in> fst ` set (block (k, v))"
  shows "first_seg key = k"
  using assms
  by (auto simp: first_seg_plain first_seg_joined split: ptree.splits if_splits)

lemma rel_items_distinct:
  "wf_tree (Dict d) \<Longrightarrow> sep_free (Dict d) \<Longrightarrow> distinct (map fst (rel_items d))"
proof (induction d rule: rel_items.induct)
  case (1 d)
  have "distinct (concat (map (\<lambda>kv. map fst (block kv)) d))"
  proof (rule distinct_concat_blocks [where g = first_seg])
    show "distinct (map fst d)" using "1.prems"(1) by simp
  next
    fix k v assume m: "(k, v) \<in> set d"
    show "distinct (map fst (block (k, v)))"
    proof (cases v)
      case (Leaf a)
      then show ?thesis by simp
    next
      case (Dict d')
      show ?thesis
      proof (cases "d' = []")
        case True
        with Dict show ?thesis by simp
      next
        case False
        have IH: "distinct (map fst (rel_items d'))"
          using "1.IH" [OF m refl Dict False] wf_tree_child [OF "1.prems"(1)]
            sep_free_child [OF "1.prems"(2)] m Dict by blast
        have b: "map fst (block (k, v)) = map ((@) (k @ ''/'')) (map fst (rel_items d'))"
          using Dict False by (simp add: case_prod_unfold)
        show ?thesis
          unfolding b by (subst distinct_map, intro conjI, rule IH) (simp add: inj_on_def)
      qed
    qed
  next
    fix k v key assume m: "(k, v) \<in> set d" and "key \<in> set (map fst (block (k, v)))"
    then show "first_seg key = k"
      using block_first_seg [of k key v] sep_free_key [OF "1.prems"(2) m] by simp
  qed
  then show ?case by (simp add: rel_items_blocks map_concat comp_def)
qed

lemma block_pre:
  "block (k, v) =
     (case v of
        Leaf a \<Rightarrow> [(k, v)]
      | Dict d' \<Rightarrow> if d' = [] then [(k, Dict [])] else map (pre k) (rel_items d'))"
  by (simp add: pre_def case_prod_unfold split: ptree.splits)

lemma distinct_pre:
  "distinct (map fst xs) \<Longrightarrow> distinct (map fst (map (pre p) xs))"
proof -
  assume d: "distinct (map fst xs)"
  have eq: "map fst (map (pre p) xs) = map ((@) (p @ ''/'')) (map fst xs)"
    by (simp add: pre_def)
  show ?thesis
    unfolding eq by (subst distinct_map, intro conjI, rule d) (simp add: inj_on_def)
qed

lemma flatten_dict_Nil: "p \<noteq> [] \<Longrightarrow> flatten_dict [] p = [(p, Dict [])]"
  by (subst flatten_dict.simps) (simp add: dict_of_def)

lemma flatten_dict_unfold:
  "p \<noteq> [] \<Longrightarrow> flatten_dict d p =
     dict_of (concat (map (\<lambda>(k, v).
         case v of Dict d' \<Rightarrow> flatten_dict d' (p @ ''/'' @ k)
                 | Leaf a \<Rightarrow> [(p @ ''/'' @ k, v)]) d)
       @ (if d = [] then [(p, Dict [])] else []))"
  by (subst flatten_dict.simps) (simp add: Let_def cong: ptree.case_cong)

lemma flatten_dict_unfold_top:
  "flatten_dict d [] =
     dict_of (concat (map (\<lambda>(k, v).
         case v of Dict d' \<Rightarrow> flatten_dict d' k | Leaf a \<Rightarrow> [(k, v)]) d))"
  by (subst flatten_dict.simps) (simp add: Let_def cong: ptree.case_cong)

lemma flatten_rel:
  assumes "wf_tree (Dict d)" and "sep_free (Dict d)" and "p \<noteq> []"
  shows "flatten_dict d p = (if d = [] then [(p, Dict [])] else map (pre p) (rel_items d))"
  using assms
proof (induction d arbitrary: p rule: rel_items.induct)
  case (1 d)
  show ?case
  proof (cases "d = []")
    case True
    with "1.prems"(3) show ?thesis by (simp add: flatten_dict_Nil)
  next
    case False
    have child: "(case v of Dict d' \<Rightarrow> flatten_dict d' (p @ ''/'' @ k)
                        | Leaf a \<Rightarrow> [(p @ ''/'' @ k, v)]) = map (pre p) (block (k, v))"
      if m: "(k, v) \<in> set d" for k v
    proof (cases v)
      case (Leaf a)
      then show ?thesis by (simp add: pre_def)
    next
      case (Dict d')
      show ?thesis
      proof (cases "d' = []")
        case True
        with Dict show ?thesis by (simp add: flatten_dict_Nil pre_def)
      next
        case nonempty: False
        have wf: "wf_tree (Dict d')" and sf: "sep_free (Dict d')"
          using wf_tree_child [OF "1.prems"(1)] sep_free_child [OF "1.prems"(2)] m Dict
          by blast+
        have "flatten_dict d' (p @ ''/'' @ k) = map (pre (p @ ''/'' @ k)) (rel_items d')"
          using "1.IH" [OF m refl Dict nonempty wf sf, of "p @ ''/'' @ k"] nonempty by simp
        also have "\<dots> = map (pre p) (map (pre k) (rel_items d'))"
          by (simp add: pre_def)
        finally show ?thesis
          using Dict nonempty by (simp add: pre_def case_prod_unfold)
      qed
    qed
    have "concat (map (\<lambda>(k, v).
         case v of Dict d' \<Rightarrow> flatten_dict d' (p @ ''/'' @ k)
                 | Leaf a \<Rightarrow> [(p @ ''/'' @ k, v)]) d)
        = concat (map (\<lambda>kv. map (pre p) (block kv)) d)"
      by (rule arg_cong [where f = concat], rule map_cong) (auto simp: child)
    also have "\<dots> = map (pre p) (rel_items d)"
      by (simp add: rel_items_blocks map_concat comp_def)
    finally have items: "concat (map (\<lambda>(k, v).
         case v of Dict d' \<Rightarrow> flatten_dict d' (p @ ''/'' @ k)
                 | Leaf a \<Rightarrow> [(p @ ''/'' @ k, v)]) d) = map (pre p) (rel_items d)" .
    have "distinct (map fst (map (pre p) (rel_items d)))"
      using rel_items_distinct [OF "1.prems"(1,2)] by (rule distinct_pre)
    then have "dict_of (map (pre p) (rel_items d)) = map (pre p) (rel_items d)"
      by (rule dict_of_distinct)
    with False items show ?thesis
      by (simp add: flatten_dict_unfold [OF "1.prems"(3)])
  qed
qed

lemma flatten_top:
  assumes "wf_tree (Dict d)" and "sep_free (Dict d)" and "top_named d"
  shows "flatten_dict d [] = rel_items d"
proof -
  have child: "(case v of Dict d' \<Rightarrow> flatten_dict d' k | Leaf a \<Rightarrow> [(k, v)]) = block (k, v)"
    if m: "(k, v) \<in> set d" for k v
  proof (cases v)
    case (Leaf a)
    then show ?thesis by simp
  next
    case (Dict d')
    have k: "k \<noteq> []"
      using assms(3) m Dict by (auto simp: top_named_def list_all_iff)
    have wf: "wf_tree (Dict d')" and sf: "sep_free (Dict d')"
      using wf_tree_child [OF assms(1)] sep_free_child [OF assms(2)] m Dict
      by blast+
    from flatten_rel [OF wf sf k] Dict show ?thesis
      by (simp add: pre_def case_prod_unfold)
  qed
  have "concat (map (\<lambda>(k, v).
         case v of Dict d' \<Rightarrow> flatten_dict d' k | Leaf a \<Rightarrow> [(k, v)]) d)
        = concat (map block d)"
    by (rule arg_cong [where f = concat], rule map_cong) (auto simp: child)
  then have items: "concat (map (\<lambda>(k, v).
         case v of Dict d' \<Rightarrow> flatten_dict d' k | Leaf a \<Rightarrow> [(k, v)]) d) = rel_items d"
    by (simp add: rel_items_blocks)
  have "dict_of (rel_items d) = rel_items d"
    using rel_items_distinct [OF assms(1,2)] by (rule dict_of_distinct)
  with items show ?thesis
    by (simp add: flatten_dict_unfold_top)
qed

lemma dropWhile_joined:
  "CHR ''/'' \<notin> set k \<Longrightarrow>
   dropWhile (\<lambda>c. c \<noteq> CHR ''/'') (k @ CHR ''/'' # r) = CHR ''/'' # r"
  by (induction k) auto

lemma takeWhile_joined:
  "CHR ''/'' \<notin> set k \<Longrightarrow> takeWhile (\<lambda>c. c \<noteq> CHR ''/'') (k @ CHR ''/'' # r) = k"
  by (induction k) auto

lemma split1_joined: "CHR ''/'' \<notin> set k \<Longrightarrow> split1 (k @ CHR ''/'' # r) = (k, r)"
  by (simp add: split1_def takeWhile_joined dropWhile_joined)

lemma scan_entry_plain:
  "CHR ''/'' \<notin> set k \<Longrightarrow> scan_entry (k, v) (t, st) = (AList.update k v t, st)"
  by (simp add: scan_entry_def)

lemma scan_entry_joined:
  "CHR ''/'' \<notin> set k \<Longrightarrow> scan_entry (pre k (r, w)) (t, st) = (t, append_sub k (r, w) st)"
  by (simp add: scan_entry_def pre_def split1_joined)

lemma fold_scan_joined:
  "CHR ''/'' \<notin> set k \<Longrightarrow>
   fold scan_entry (map (pre k) es) (t, st) = (t, fold (append_sub k) es st)"
proof (induction es arbitrary: st)
  case Nil
  then show ?case by simp
next
  case (Cons e es)
  obtain r w where e: "e = (r, w)" by (cases e)
  show ?case
    by (simp add: e Cons.IH [OF Cons.prems] scan_entry_joined [OF Cons.prems])
qed

lemma append_sub_fresh: "k \<notin> fst ` set st \<Longrightarrow> append_sub k e st = st @ [(k, [e])]"
  by (induction st) (auto simp: append_sub_Nil append_sub_Cons)

lemma append_sub_last:
  "k \<notin> fst ` set st \<Longrightarrow> append_sub k e (st @ [(k, l)]) = st @ [(k, l @ [e])]"
  by (induction st) (auto simp: append_sub_Nil append_sub_Cons)

lemma fold_append_sub_last:
  "k \<notin> fst ` set st \<Longrightarrow> fold (append_sub k) es (st @ [(k, l)]) = st @ [(k, l @ es)]"
  by (induction es arbitrary: l) (simp_all add: append_sub_last)

lemma fold_append_sub_fresh:
  assumes "k \<notin> fst ` set st" and "es \<noteq> []"
  shows "fold (append_sub k) es st = st @ [(k, es)]"
proof -
  from assms(2) obtain e es' where es: "es = e # es'" by (cases es) auto
  show ?thesis
    using fold_append_sub_last [OF assms(1), of es' "[e]"]
    by (simp add: es append_sub_fresh [OF assms(1)])
qed

lemma direct_Cons:
  "direct ((k, v) # d) =
     (case v of Leaf a \<Rightarrow> [(k, v)] | Dict d' \<Rightarrow> if d' = [] then [(k, v)] else []) @ direct d"
  by (simp add: direct_def split: ptree.splits)

lemma groups_Cons:
  "groups ((k, v) # d) =
     (case v of Leaf a \<Rightarrow> [] | Dict d' \<Rightarrow> if d' = [] then [] else [(k, rel_items d')]) @ groups d"
  by (simp add: groups_def nested_def split: ptree.splits)

lemma direct_keys: "fst ` set (direct d) \<subseteq> fst ` set d"
  by (auto simp: direct_def)

lemma groups_Nil [simp]: "groups [] = []"
  by (simp add: groups_def nested_def)

lemma groups_keys: "fst ` set (groups d) \<subseteq> fst ` set d"
proof (induction d)
  case Nil
  then show ?case by simp
next
  case (Cons x d)
  obtain k v where x: "x = (k, v)" by (cases x)
  have "fst ` set (groups ((k, v) # d)) \<subseteq> insert k (fst ` set (groups d))"
    by (auto simp: groups_Cons split: ptree.splits if_splits)
  with Cons.IH have "fst ` set (groups ((k, v) # d)) \<subseteq> insert k (fst ` set d)"
    by blast
  then show ?case by (simp add: x)
qed

lemma fold_scan_block:
  assumes "CHR ''/'' \<notin> set k" and "k \<notin> fst ` set t" and "k \<notin> fst ` set st"
  shows "fold scan_entry (block (k, v)) (t, st) =
           (t @ direct [(k, v)], st @ groups [(k, v)])"
proof (cases v)
  case (Leaf a)
  then show ?thesis
    using assms by (simp add: scan_entry_plain update_fresh direct_def groups_def nested_def)
next
  case (Dict d')
  show ?thesis
  proof (cases "d' = []")
    case True
    with Dict show ?thesis
      using assms by (simp add: scan_entry_plain update_fresh direct_def groups_def nested_def)
  next
    case False
    then have "rel_items d' \<noteq> []" by (rule rel_items_nonempty)
    then show ?thesis
      using Dict False assms
      by (simp add: block_pre fold_scan_joined fold_append_sub_fresh direct_def groups_def
          nested_def del: block.simps)
  qed
qed

lemma fold_scan_rel_items:
  assumes "distinct (map fst d)" and "\<forall>k \<in> fst ` set d. CHR ''/'' \<notin> set k"
    and "fst ` set d \<inter> fst ` set t = {}" and "fst ` set d \<inter> fst ` set st = {}"
  shows "fold scan_entry (rel_items d) (t, st) = (t @ direct d, st @ groups d)"
  using assms
proof (induction d arbitrary: t st)
  case Nil
  then show ?case by (simp add: direct_def groups_def nested_def)
next
  case (Cons x d)
  obtain k v where x: "x = (k, v)" by (cases x)
  have k: "CHR ''/'' \<notin> set k" "k \<notin> fst ` set t" "k \<notin> fst ` set st" "k \<notin> fst ` set d"
    using Cons.prems by (auto simp: x)
  have step: "fold scan_entry (block (k, v)) (t, st) =
           (t @ direct [(k, v)], st @ groups [(k, v)])"
    using k(1-3) by (rule fold_scan_block)
  have "fold scan_entry (rel_items d) (t @ direct [(k, v)], st @ groups [(k, v)]) =
      ((t @ direct [(k, v)]) @ direct d, (st @ groups [(k, v)]) @ groups d)"
  proof (rule Cons.IH)
    show "distinct (map fst d)" using Cons.prems(1) by simp
    show "\<forall>k \<in> fst ` set d. CHR ''/'' \<notin> set k" using Cons.prems(2) by simp
    show "fst ` set d \<inter> fst ` set (t @ direct [(k, v)]) = {}"
      using Cons.prems(3) k(4) direct_keys [of "[(k, v)]"] by (auto simp: x)
    show "fst ` set d \<inter> fst ` set (st @ groups [(k, v)]) = {}"
      using Cons.prems(4) k(4) groups_keys [of "[(k, v)]"] by (auto simp: x)
  qed
  with step show ?case
    by (simp add: x rel_items_blocks direct_Cons groups_Cons del: block.simps)
       (simp add: direct_def groups_def nested_def)
qed

lemma recover_tree_pairs:
  "recover_tree (map fst es) (map snd es) =
     fold (\<lambda>(k, kv_pairs) tree.
             AList.update k (Dict (recover_tree (map fst kv_pairs) (map snd kv_pairs))) tree)
       (snd (fold scan_entry es ([], []))) (fst (fold scan_entry es ([], [])))"
  by (subst recover_tree.simps) (simp add: zip_map_fst_snd Let_def)

lemma distinct_direct_groups:
  "distinct (map fst d) \<Longrightarrow> distinct (map fst (direct d) @ map fst (groups d))"
proof (induction d)
  case Nil
  then show ?case by (simp add: direct_def)
next
  case (Cons x d)
  obtain k v where x: "x = (k, v)" by (cases x)
  from Cons.prems have k: "k \<notin> fst ` set d" and d: "distinct (map fst d)"
    by (auto simp: x)
  from k have fresh: "k \<notin> fst ` set (direct d)" "k \<notin> fst ` set (groups d)"
    using direct_keys [of d] groups_keys [of d] by blast+
  have IH: "distinct (map fst (direct d) @ map fst (groups d))"
    by (rule Cons.IH [OF d])
  consider (dir) "direct (x # d) = x # direct d" "groups (x # d) = groups d"
    | (grp) kvs where "direct (x # d) = direct d" "groups (x # d) = (k, kvs) # groups d"
  proof (cases v)
    case (Leaf a)
    then have "direct (x # d) = x # direct d" "groups (x # d) = groups d"
      by (simp_all add: x direct_Cons groups_Cons)
    then show ?thesis by (rule dir)
  next
    case (Dict d')
    show ?thesis
    proof (cases "d' = []")
      case True
      with Dict have "direct (x # d) = x # direct d" "groups (x # d) = groups d"
        by (simp_all add: x direct_Cons groups_Cons)
      then show ?thesis by (rule dir)
    next
      case False
      with Dict have "direct (x # d) = direct d"
        "groups (x # d) = (k, rel_items d') # groups d"
        by (simp_all add: x direct_Cons groups_Cons)
      then show ?thesis by (rule grp)
    qed
  qed
  then show ?case
  proof cases
    case dir
    with IH fresh show ?thesis by (simp add: x)
  next
    case grp
    with IH fresh show ?thesis by simp
  qed
qed

lemma length_direct_groups: "length (direct d) + length (groups d) = length d"
proof (induction d)
  case Nil
  then show ?case by (simp add: direct_def)
next
  case (Cons x d)
  obtain k v where x: "x = (k, v)" by (cases x)
  from Cons.IH show ?case
    by (simp add: x direct_Cons groups_Cons split: ptree.splits)
qed

lemma direct_member:
  "(k, v) \<in> set (direct d) \<Longrightarrow> (k, v) \<in> set d \<and> ((\<exists>a. v = Leaf a) \<or> v = Dict [])"
  by (auto simp: direct_def split: ptree.splits)

lemma groups_member:
  "(k, kvs) \<in> set (groups d) \<Longrightarrow> \<exists>d'. (k, Dict d') \<in> set d \<and> d' \<noteq> [] \<and> kvs = rel_items d'"
proof (induction d)
  case Nil
  then show ?case by simp
next
  case (Cons x d)
  obtain k0 v0 where x: "x = (k0, v0)" by (cases x)
  from Cons show ?case
    by (auto simp: x groups_Cons split: ptree.splits if_splits)
qed

lemma recover_rel_items:
  assumes "wf_tree (Dict d)" and "sep_free (Dict d)"
  shows "recover_tree (map fst (rel_items d)) (map snd (rel_items d)) =
           direct d @
           map (\<lambda>(k, kvs). (k, Dict (recover_tree (map fst kvs) (map snd kvs)))) (groups d)"
proof -
  have dist: "distinct (map fst d)" using assms(1) by simp
  have sep: "\<forall>k \<in> fst ` set d. CHR ''/'' \<notin> set k"
    using sep_free_key [OF assms(2)] by auto
  have scan: "fold scan_entry (rel_items d) ([], []) = (direct d, groups d)"
    using fold_scan_rel_items [OF dist sep, of "[]" "[]"] by simp
  have "recover_tree (map fst (rel_items d)) (map snd (rel_items d)) =
      fold (\<lambda>(k, kv_pairs) tree.
             AList.update k (Dict (recover_tree (map fst kv_pairs) (map snd kv_pairs))) tree)
        (groups d) (direct d)"
    by (subst recover_tree_pairs) (simp add: scan)
  also have "\<dots> = direct d @
           map (\<lambda>(k, kvs). (k, Dict (recover_tree (map fst kvs) (map snd kvs)))) (groups d)"
    by (rule fold_update_fresh [OF distinct_direct_groups [OF dist]])
  finally show ?thesis .
qed

lemma tree_eq_recover_rel_items:
  "wf_tree (Dict d) \<Longrightarrow> sep_free (Dict d) \<Longrightarrow>
   tree_eq (Dict (recover_tree (map fst (rel_items d)) (map snd (rel_items d)))) (Dict d)"
proof (induction d rule: rel_items.induct)
  case (1 d)
  have dist: "distinct (map fst d)" using "1.prems"(1) by simp
  let ?sub = "\<lambda>(k, kvs). (k, Dict (recover_tree (map fst kvs) (map snd kvs)))"
  let ?ok = "\<lambda>(k, v). case map_of d k of None \<Rightarrow> False | Some w \<Rightarrow> tree_eq v w"
  have a: "list_all ?ok (direct d)"
  proof -
    have "?ok (k, v)" if "(k, v) \<in> set (direct d)" for k v
    proof -
      from direct_member [OF that] have m: "(k, v) \<in> set d"
        and v: "(\<exists>a. v = Leaf a) \<or> v = Dict []" by simp_all
      from m dist have "map_of d k = Some v" by simp
      with v show ?thesis by auto
    qed
    then show ?thesis by (auto simp: list_all_iff)
  qed
  have b: "list_all ?ok (map ?sub (groups d))"
  proof -
    have "?ok (?sub (k, kvs))" if "(k, kvs) \<in> set (groups d)" for k kvs
    proof -
      from groups_member [OF that] obtain d' where
        m: "(k, Dict d') \<in> set d" and ne: "d' \<noteq> []" and kvs: "kvs = rel_items d'"
        by blast
      have "tree_eq (Dict (recover_tree (map fst (rel_items d')) (map snd (rel_items d'))))
              (Dict d')"
        using "1.IH" [OF m refl refl ne] wf_tree_child [OF "1.prems"(1) m]
          sep_free_child [OF "1.prems"(2) m] by blast
      moreover from m dist have "map_of d k = Some (Dict d')" by simp
      ultimately show ?thesis by (simp add: kvs del: tree_eq.simps)
    qed
    then show ?thesis by (auto simp: list_all_iff simp del: tree_eq.simps)
  qed
  show ?case
    unfolding recover_rel_items [OF "1.prems"]
    using a b length_direct_groups [of d]
    by (simp del: tree_eq.simps add: tree_eq.simps(2))
qed


section \<open>Properties of the adapter\<close>

text \<open>
  C1: for \<open>expected = {"a": {"norm": {}}}\<close> and \<open>restored = {}\<close> the inspection with
  \<open>fail_if_missing\<close> returns without an error, but the empty sub-tree is stored under the
  flat name \<open>a/norm\<close> at the top of the restored tree, not at the nested path: the result
  is not equal to \<open>{"a": {"norm": {}}}\<close>.
\<close>

theorem inspect_params_empty_key_flat_name:
  "inspect_params [] [(''a'', Dict [(''norm'', Dict [])])] True True =
     (Inr [(''a/norm'', Dict [])] :: error + (string \<times> 'a ptree) list) \<and>
   \<not> tree_eq (Dict [(''a/norm'', Dict [])])
        (Dict [(''a'', Dict [(''norm'', Dict [])])] :: 'a ptree)"
  by (simp add: inspect_params_def flatten_dict.simps [of "[]"] flatten_dict.simps [of "[_]"]
        dict_of_def add_back_empty_def is_empty_dict_def)

text \<open>
  C8: the number of token slots is one for a set \<open>use_cls_token\<close>, plus \<open>length\<close> times
  \<open>top_k\<close> of the \<open>prompt_pool\<close> entry of \<open>prompt_params\<close> when there is one; the
  \<open>representation_size\<close> and the other entries of \<open>prompt_params\<close> do not count.
\<close>

theorem token_len_of_closed_form:
  "token_len_of cfg =
     (if use_cls_token cfg = Some True then 1 else 0) +
     (case prompt_params cfg of
        None \<Rightarrow> 0
      | Some pp \<Rightarrow> (case map_of pp ''prompt_pool'' of
                     None \<Rightarrow> 0
                   | Some pc \<Rightarrow> prompt_length pc * top_k pc))"
  by (simp add: token_len_of_def split: option.splits)

text \<open>
  With two token slots the grid segment of a three-token embedding still starts at the
  second token (index 1), while the tokens from index \<open>token_len = 2\<close> onward are the
  third token alone; and the prefix is the first token twice, not the first two tokens
  \<^verbatim>\<open>posemb[:, :2]\<close>.
\<close>

theorem split_posemb_grid_counterexample:
  "split_posemb 2 (Tensor [1, 3, 1] [10, 20, 30 :: int]) 3 =
     Inr (Tensor [1, 2, 1] [10, 10], Tensor [2, 1] [20, 30], 1) \<and>
   tokens_from 2 (Tensor [1, 3, 1] [10, 20, 30 :: int]) = Inr (Tensor [1, 1] [30]) \<and>
   slice_tokens 2 (Tensor [1, 3, 1] [10, 20, 30 :: int]) = Inr (Tensor [1, 2, 1] [10, 20])"
  by (simp add: split_posemb_def slice_tokens_def tokens_from_def tile_tokens_def bind_err_def
        chunks_def numeral_2_eq_2)

text \<open>
  C2, as the code has it: for \<open>token_len > 0\<close> an embedding of shape \<open>[1, n, c]\<close> is split
  at index 1, whatever \<open>token_len\<close> is. The prefix is the first token repeated
  \<open>token_len\<close> times, the grid segment is every token from index 1 onward: no token but
  the first contributes to the prefix, and the first token does not contribute to the grid.
\<close>

theorem split_posemb_first_token:
  assumes "0 < token_len" and "shape posemb = [1, n, c]" and "length (data posemb) = n * c"
    and "0 < n"
  shows "split_posemb token_len posemb ntok_new =
           Inr (Tensor [1, nat token_len, c]
                  (concat (replicate (nat token_len) (take c (data posemb)))),
                Tensor [n - 1, c] (drop c (data posemb)),
                ntok_new - token_len)"
  using assms by (rule split_posemb_first)

theorem split_posemb_first_token_witness:
  "split_posemb 2 (Tensor [1, 3, 1] [10, 20, 30 :: int]) 5 =
     Inr (Tensor [1, 2, 1] [10, 10], Tensor [2, 1] [20, 30], 3)"
  using split_posemb_first_token [of 2 "Tensor [1, 3, 1] [10, 20, 30 :: int]" 3 1 5]
  by (simp add: numeral_2_eq_2)


text \<open>
  C3, as the code has it: for a tree with unique sibling keys, no separator in a key, and
  no sub-tree under the empty key at its top, flattening and recovering gives a tree equal
  to it, empty sub-trees included.
\<close>

theorem recover_flatten_roundtrip:
  assumes "wf_tree (Dict d)" and "sep_free (Dict d)" and "top_named d"
  shows "tree_eq (Dict (recover_tree (map fst (flatten_dict d [])) (map snd (flatten_dict d []))))
           (Dict d)"
  unfolding flatten_top [OF assms]
  using assms(1,2) by (rule tree_eq_recover_rel_items)

theorem recover_flatten_roundtrip_witness:
  "tree_eq
     (Dict (recover_tree
        (map fst (flatten_dict
           [(''a'', Dict [(''norm'', Dict []), (''w'', Leaf (1 :: nat))]), (''b'', Leaf 2)] []))
        (map snd (flatten_dict
           [(''a'', Dict [(''norm'', Dict []), (''w'', Leaf (1 :: nat))]), (''b'', Leaf 2)] []))))
     (Dict [(''a'', Dict [(''norm'', Dict []), (''w'', Leaf (1 :: nat))]), (''b'', Leaf 2)])"
  using recover_flatten_roundtrip
    [of "[(''a'', Dict [(''norm'', Dict []), (''w'', Leaf (1 :: nat))]), (''b'', Leaf 2)]"]
  by (simp add: top_named_def)

text \<open>
  A sub-tree under the empty key at the top is flattened as if its children were at the
  top: the parent key is tested for truth, and the empty string is false.
\<close>

theorem recover_flatten_empty_key_counterexample:
  "wf_tree (Dict [('''', Dict [(''x'', Leaf (1 :: nat))])]) \<and>
   sep_free (Dict [('''', Dict [(''x'', Leaf (1 :: nat))])]) \<and>
   \<not> tree_eq
       (Dict (recover_tree
          (map fst (flatten_dict [('''', Dict [(''x'', Leaf (1 :: nat))])] []))
          (map snd (flatten_dict [('''', Dict [(''x'', Leaf (1 :: nat))])] []))))
       (Dict [('''', Dict [(''x'', Leaf 1)])])"
proof -
  have f: "flatten_dict [('''', Dict [(''x'', Leaf (1 :: nat))])] [] = [(''x'', Leaf 1)]"
    by code_simp
  have r: "recover_tree [''x''] [Leaf (1 :: nat)] = [(''x'', Leaf 1)]"
    by (simp add: recover_tree.simps [of "[''x'']"] scan_entry_def)
  show ?thesis using f r by simp
qed

end
